theory Spec2Isabelle
  imports Main "HOL-Library.Word"
begin

unbundle bit_operations_syntax

section \<open>Strings and byte buffers of the platform\<close>

text \<open>
  A JavaScript string is a sequence of UTF-16 code units (each below 65536); a Buffer is a
  sequence of bytes (each below 256). Both are lists of naturals here. String literals of
  the source are written \<open>js ''...''\<close>.
\<close>

type_synonym jstring = "nat list"
type_synonym bytes = "nat list"

definition js :: "string \<Rightarrow> jstring" where
  "js s = map of_char s"

definition latin1 :: "jstring \<Rightarrow> bool" where
  "latin1 s = list_all (\<lambda>c. c < 256) s"

subsection \<open>Buffer.from(text, 'binary') and Buffer.toString('binary')\<close>

text \<open>
  The \<open>binary\<close> (Latin-1) encoding keeps the low byte of every code unit when a Buffer
  is made from a string, and maps every byte to the code unit of the same value when a
  Buffer is read back.
\<close>

definition buffer_from_binary :: "jstring \<Rightarrow> bytes" where
  "buffer_from_binary text = map (\<lambda>c. c mod 256) text"

definition buffer_to_binary :: "bytes \<Rightarrow> jstring" where
  "buffer_to_binary buf = buf"

subsection \<open>Base64\<close>

definition b64_char :: "nat \<Rightarrow> nat" where
  "b64_char n =
     (if n < 26 then 65 + n else if n < 52 then 71 + n else if n < 62 then n - 4
      else if n = 62 then 43 else 47)"

fun base64_encode :: "bytes \<Rightarrow> jstring" where
  "base64_encode (a # b # c # rest) =
     [b64_char (a div 4), b64_char ((a mod 4) * 16 + b div 16),
      b64_char ((b mod 16) * 4 + c div 64), b64_char (c mod 64)] @ base64_encode rest"
| "base64_encode [a, b] =
     [b64_char (a div 4), b64_char ((a mod 4) * 16 + b div 16), b64_char ((b mod 16) * 4), 61]"
| "base64_encode [a] = [b64_char (a div 4), b64_char ((a mod 4) * 16), 61, 61]"
| "base64_encode [] = []"

text \<open>
  The decoder of \<open>Buffer.from(text, 'base64')\<close> is lenient: it stops at the first
  \<open>=\<close>, skips every character outside the alphabet (the URL-safe \<open>-\<close> and
  \<open>_\<close> count as 62 and 63), and never fails.
\<close>

definition b64_value :: "nat \<Rightarrow> nat option" where
  "b64_value c =
     (if 65 \<le> c \<and> c \<le> 90 then Some (c - 65)
      else if 97 \<le> c \<and> c \<le> 122 then Some (c - 71)
      else if 48 \<le> c \<and> c \<le> 57 then Some (c + 4)
      else if c = 43 \<or> c = 45 then Some 62
      else if c = 47 \<or> c = 95 then Some 63
      else None)"

fun sextets_to_bytes :: "nat list \<Rightarrow> bytes" where
  "sextets_to_bytes (p # q # r # s # rest) =
     [p * 4 + q div 16, (q mod 16) * 16 + r div 4, (r mod 4) * 64 + s] @ sextets_to_bytes rest"
| "sextets_to_bytes [p, q, r] = [p * 4 + q div 16, (q mod 16) * 16 + r div 4]"
| "sextets_to_bytes [p, q] = [p * 4 + q div 16]"
| "sextets_to_bytes _ = []"

definition sextets :: "jstring \<Rightarrow> nat list" where
  "sextets s = List.map_filter b64_value (takeWhile (\<lambda>c. c \<noteq> 61) s)"

definition base64_decode :: "jstring \<Rightarrow> bytes" where
  "base64_decode s = sextets_to_bytes (sextets s)"

subsection \<open>Hexadecimal\<close>

definition hex_digit :: "nat \<Rightarrow> nat" where
  "hex_digit n = (if n < 10 then 48 + n else 87 + n)"

definition hex_digit_upper :: "nat \<Rightarrow> nat" where
  "hex_digit_upper n = (if n < 10 then 48 + n else 55 + n)"


definition hex_value :: "nat \<Rightarrow> nat option" where
  "hex_value c =
     (if 48 \<le> c \<and> c \<le> 57 then Some (c - 48)
      else if 65 \<le> c \<and> c \<le> 70 then Some (c - 55)
      else if 97 \<le> c \<and> c \<le> 102 then Some (c - 87)
      else None)"

subsection \<open>UTF-16 code points and UTF-8\<close>

definition is_high_surrogate :: "nat \<Rightarrow> bool" where
  "is_high_surrogate c = (55296 \<le> c \<and> c < 56320)"

definition is_low_surrogate :: "nat \<Rightarrow> bool" where
  "is_low_surrogate c = (56320 \<le> c \<and> c < 57344)"

definition is_surrogate :: "nat \<Rightarrow> bool" where
  "is_surrogate c = (55296 \<le> c \<and> c < 57344)"

text \<open>The code points of a string; \<open>None\<close> stands for a lone surrogate.\<close>

fun code_points :: "jstring \<Rightarrow> nat option list" where
  "code_points [] = []"
| "code_points [c] = [if is_surrogate c then None else Some c]"
| "code_points (c # d # cs) =
     (if is_high_surrogate c \<and> is_low_surrogate d
      then Some (65536 + (c - 55296) * 1024 + (d - 56320)) # code_points cs
      else (if is_surrogate c then None else Some c) # code_points (d # cs))"

definition utf8_bytes :: "nat \<Rightarrow> bytes" where
  "utf8_bytes cp =
     (if cp < 128 then [cp]
      else if cp < 2048 then [192 + cp div 64, 128 + cp mod 64]
      else if cp < 65536 then [224 + cp div 4096, 128 + (cp div 64) mod 64, 128 + cp mod 64]
      else [240 + cp div 262144, 128 + (cp div 4096) mod 64, 128 + (cp div 64) mod 64,
            128 + cp mod 64])"

text \<open>
  Strings handed to the crypto module are encoded as UTF-8, a lone surrogate as U+FFFD.
\<close>

definition utf8_encode :: "jstring \<Rightarrow> bytes" where
  "utf8_encode s =
     concat (map (\<lambda>p. case p of None \<Rightarrow> utf8_bytes 65533 | Some cp \<Rightarrow> utf8_bytes cp)
       (code_points s))"

section \<open>HMAC-SHA512 of the crypto module\<close>

type_synonym w64 = "64 word"

definition sha512_k :: "w64 list" where
  "sha512_k = [
    4794697086780616226, 8158064640168781261, 13096744586834688815, 16840607885511220156,
    4131703408338449720, 6480981068601479193, 10538285296894168987, 12329834152419229976,
    15566598209576043074, 1334009975649890238, 2608012711638119052, 6128411473006802146,
    8268148722764581231, 9286055187155687089, 11230858885718282805, 13951009754708518548,
    16472876342353939154, 17275323862435702243, 1135362057144423861, 2597628984639134821,
    3308224258029322869, 5365058923640841347, 6679025012923562964, 8573033837759648693,
    10970295158949994411, 12119686244451234320, 12683024718118986047, 13788192230050041572,
    14330467153632333762, 15395433587784984357, 489312712824947311, 1452737877330783856,
    2861767655752347644, 3322285676063803686, 5560940570517711597, 5996557281743188959,
    7280758554555802590, 8532644243296465576, 9350256976987008742, 10552545826968843579,
    11727347734174303076, 12113106623233404929, 14000437183269869457, 14369950271660146224,
    15101387698204529176, 15463397548674623760, 17586052441742319658, 1182934255886127544,
    1847814050463011016, 2177327727835720531, 2830643537854262169, 3796741975233480872,
    4115178125766777443, 5681478168544905931, 6601373596472566643, 7507060721942968483,
    8399075790359081724, 8693463985226723168, 9568029438360202098, 10144078919501101548,
    10430055236837252648, 11840083180663258601, 13761210420658862357, 14299343276471374635,
    14566680578165727644, 15097957966210449927, 16922976911328602910, 17689382322260857208,
    500013540394364858, 748580250866718886, 1242879168328830382, 1977374033974150939,
    2944078676154940804, 3659926193048069267, 4368137639120453308, 4836135668995329356,
    5532061633213252278, 6448918945643986474, 6902733635092675308, 7801388544844847127]"

definition sha512_h0 :: "w64 list" where
  "sha512_h0 = [
    7640891576956012808, 13503953896175478587, 4354685564936845355, 11912009170470909681,
    5840696475078001361, 11170449401992604703, 2270897969802886507, 6620516959819538809]"

definition be_word :: "bytes \<Rightarrow> w64" where
  "be_word bs = word_of_nat (foldl (\<lambda>acc b. acc * 256 + b) 0 bs)"

definition word_bytes :: "w64 \<Rightarrow> bytes" where
  "word_bytes w = map (\<lambda>i. unat (drop_bit (8 * (7 - i)) w AND 255)) [0..<8]"

definition nat_bytes16 :: "nat \<Rightarrow> bytes" where
  "nat_bytes16 n = map (\<lambda>i. (n div 256 ^ (15 - i)) mod 256) [0..<16]"

definition sha512_pad :: "bytes \<Rightarrow> bytes" where
  "sha512_pad m =
     m @ [128] @ replicate ((239 - length m mod 128) mod 128) 0 @ nat_bytes16 (8 * length m)"

fun chunks :: "nat \<Rightarrow> nat \<Rightarrow> 'a list \<Rightarrow> 'a list list" where
  "chunks 0 n xs = []"
| "chunks (Suc k) n xs = take n xs # chunks k n (drop n xs)"

definition small_sigma0 :: "w64 \<Rightarrow> w64" where
  "small_sigma0 x = word_rotr 1 x XOR word_rotr 8 x XOR drop_bit 7 x"

definition small_sigma1 :: "w64 \<Rightarrow> w64" where
  "small_sigma1 x = word_rotr 19 x XOR word_rotr 61 x XOR drop_bit 6 x"

definition big_sigma0 :: "w64 \<Rightarrow> w64" where
  "big_sigma0 x = word_rotr 28 x XOR word_rotr 34 x XOR word_rotr 39 x"

definition big_sigma1 :: "w64 \<Rightarrow> w64" where
  "big_sigma1 x = word_rotr 14 x XOR word_rotr 18 x XOR word_rotr 41 x"

fun schedule :: "nat \<Rightarrow> w64 list \<Rightarrow> w64 list" where
  "schedule 0 w = w"
| "schedule (Suc k) w =
     schedule k
       (w @ [small_sigma1 (w ! (length w - 2)) + w ! (length w - 7)
             + small_sigma0 (w ! (length w - 15)) + w ! (length w - 16)])"

fun sha512_round :: "w64 list \<Rightarrow> w64 \<times> w64 \<Rightarrow> w64 list" where
  "sha512_round [a, b, c, d, e, f, g, h] (k, w) =
     (let t1 = h + big_sigma1 e + ((e AND f) XOR (NOT e AND g)) + k + w;
          t2 = big_sigma0 a + ((a AND b) XOR (a AND c) XOR (b AND c))
      in [t1 + t2, a, b, c, d + t1, e, f, g])"
| "sha512_round st _ = st"

definition sha512_block :: "w64 list \<Rightarrow> bytes \<Rightarrow> w64 list" where
  "sha512_block hs block =
     map2 (+) hs
       (foldl sha512_round hs (zip sha512_k (schedule 64 (map be_word (chunks 16 8 block)))))"

definition sha512 :: "bytes \<Rightarrow> bytes" where
  "sha512 m =
     concat (map word_bytes
       (foldl sha512_block sha512_h0
          (chunks (length (sha512_pad m) div 128) 128 (sha512_pad m))))"

definition hmac_key_block :: "bytes \<Rightarrow> bytes" where
  "hmac_key_block key =
     (let k = (if length key > 128 then sha512 key else key)
      in k @ replicate (128 - length k) 0)"

definition xor_byte :: "nat \<Rightarrow> nat \<Rightarrow> nat" where
  "xor_byte p b = unat ((word_of_nat b :: 8 word) XOR word_of_nat p)"

text \<open>\<open>crypto.createHmac('sha512', key).update(text).digest()\<close> for strings key and text.\<close>

definition hmac_sha512 :: "jstring \<Rightarrow> jstring \<Rightarrow> bytes" where
  "hmac_sha512 key text =
     (let kb = hmac_key_block (utf8_encode key)
      in sha512 (map (xor_byte 92) kb @ sha512 (map (xor_byte 54) kb @ utf8_encode text)))"

section \<open>Values\<close>

text \<open>
  The values the token code handles: what \<open>JSON.parse\<close> can return, and \<open>undefined\<close>.
  Numbers are integers (timestamps are epoch milliseconds, lifetimes are whole days);
  fractions, NaN and infinities are outside this development. An object is the list of its
  own properties in the order the language enumerates them, with no key twice.
\<close>

datatype jsval =
    JUndefined
  | JNull
  | JBool bool
  | JNum int
  | JStr jstring
  | JArr "jsval list"
  | JObj "(jstring \<times> jsval) list"

type_synonym obj = "(jstring \<times> jsval) list"

fun join_with :: "nat \<Rightarrow> jstring list \<Rightarrow> jstring" where
  "join_with sep [] = []"
| "join_with sep [x] = x"
| "join_with sep (x # y # r) = x @ [sep] @ join_with sep (y # r)"

fun dec_digits :: "nat \<Rightarrow> jstring" where
  "dec_digits n = (if n < 10 then [48 + n] else dec_digits (n div 10) @ [48 + n mod 10])"

declare dec_digits.simps [simp del]

definition int_to_string :: "int \<Rightarrow> jstring" where
  "int_to_string i = (if i < 0 then 45 # dec_digits (nat (- i)) else dec_digits (nat i))"

definition is_digit :: "nat \<Rightarrow> bool" where
  "is_digit c = (48 \<le> c \<and> c \<le> 57)"

definition digits_value :: "jstring \<Rightarrow> nat" where
  "digits_value ds = foldl (\<lambda>acc d. acc * 10 + (d - 48)) 0 ds"

section \<open>JSON.stringify\<close>

definition unicode_escape :: "nat \<Rightarrow> jstring" where
  "unicode_escape c =
     [92, 117, hex_digit (c div 4096), hex_digit ((c div 256) mod 16),
      hex_digit ((c div 16) mod 16), hex_digit (c mod 16)]"

definition quote_unit :: "nat \<Rightarrow> jstring" where
  "quote_unit c =
     (if c = 8 then [92, 98] else if c = 9 then [92, 116] else if c = 10 then [92, 110]
      else if c = 12 then [92, 102] else if c = 13 then [92, 114]
      else if c = 34 then [92, 34] else if c = 92 then [92, 92]
      else if c < 32 \<or> is_surrogate c then unicode_escape c else [c])"

fun quote_units :: "jstring \<Rightarrow> jstring" where
  "quote_units [] = []"
| "quote_units [c] = quote_unit c"
| "quote_units (c # d # cs) =
     (if is_high_surrogate c \<and> is_low_surrogate d then c # d # quote_units cs
      else quote_unit c @ quote_units (d # cs))"

definition quote_json_string :: "jstring \<Rightarrow> jstring" where
  "quote_json_string s = 34 # quote_units s @ [34]"

text \<open>
  \<open>stringify_val\<close> is \<open>JSON.stringify\<close> with one argument; \<open>None\<close> is its result
  \<open>undefined\<close>. An undefined array element is written \<open>null\<close>, a property whose
  value is undefined is left out.
\<close>

fun stringify_val :: "jsval \<Rightarrow> jstring option"
  and stringify_elems :: "jsval list \<Rightarrow> jstring list"
  and stringify_members :: "(jstring \<times> jsval) list \<Rightarrow> jstring list"
where
  "stringify_val JUndefined = None"
| "stringify_val JNull = Some (js ''null'')"
| "stringify_val (JBool b) = Some (if b then js ''true'' else js ''false'')"
| "stringify_val (JNum n) = Some (int_to_string n)"
| "stringify_val (JStr s) = Some (quote_json_string s)"
| "stringify_val (JArr xs) = Some ([91] @ join_with 44 (stringify_elems xs) @ [93])"
| "stringify_val (JObj fs) = Some ([123] @ join_with 44 (stringify_members fs) @ [125])"
| "stringify_elems [] = []"
| "stringify_elems (x # xs) =
     (case stringify_val x of None \<Rightarrow> js ''null'' | Some t \<Rightarrow> t) # stringify_elems xs"
| "stringify_members [] = []"
| "stringify_members ((k, v) # fs) =
     (case stringify_val v of
        None \<Rightarrow> stringify_members fs
      | Some t \<Rightarrow> (quote_json_string k @ [58] @ t) # stringify_members fs)"

section \<open>JSON.parse\<close>

definition json_ws :: "nat \<Rightarrow> bool" where
  "json_ws c = (c = 9 \<or> c = 10 \<or> c = 13 \<or> c = 32)"

definition skip_ws :: "jstring \<Rightarrow> jstring" where
  "skip_ws s = dropWhile json_ws s"

definition unescape :: "nat \<Rightarrow> nat option" where
  "unescape e =
     (if e = 34 \<or> e = 92 \<or> e = 47 then Some e
      else if e = 98 then Some 8 else if e = 102 then Some 12 else if e = 110 then Some 10
      else if e = 114 then Some 13 else if e = 116 then Some 9 else None)"

definition hex4 :: "nat \<Rightarrow> nat \<Rightarrow> nat \<Rightarrow> nat \<Rightarrow> nat option" where
  "hex4 h1 h2 h3 h4 =
     (case (hex_value h1, hex_value h2, hex_value h3, hex_value h4) of
        (Some a, Some b, Some c, Some d) \<Rightarrow> Some (a * 4096 + b * 256 + c * 16 + d)
      | _ \<Rightarrow> None)"

definition cons_fst :: "'a \<Rightarrow> ('a list \<times> 'b) option \<Rightarrow> ('a list \<times> 'b) option" where
  "cons_fst c r = map_option (\<lambda>(s, t). (c # s, t)) r"

text \<open>The characters of a string literal, after its opening quote, and what follows it.\<close>

fun parse_chars :: "jstring \<Rightarrow> (jstring \<times> jstring) option" where
  "parse_chars [] = None"
| "parse_chars (c # cs) =
     (if c = 34 then Some ([], cs)
      else if c < 32 then None
      else if c = 92 then
        (case cs of
           [] \<Rightarrow> None
         | e # r \<Rightarrow>
             if e = 117 then
               (case r of
                  h1 # h2 # h3 # h4 # r' \<Rightarrow>
                    (case hex4 h1 h2 h3 h4 of
                       None \<Rightarrow> None
                     | Some u \<Rightarrow> cons_fst u (parse_chars r'))
                | _ \<Rightarrow> None)
             else
               (case unescape e of
                  None \<Rightarrow> None
                | Some u \<Rightarrow> cons_fst u (parse_chars r)))
      else cons_fst c (parse_chars cs))"

text \<open>
  A number literal. Numbers are integers in this development: a literal with a fraction
  or an exponent is not in the model and is refused like a syntax error.
\<close>

definition parse_number :: "jstring \<Rightarrow> (jsval \<times> jstring) option" where
  "parse_number s =
     (let neg = (s \<noteq> [] \<and> hd s = 45);
          t = (if neg then tl s else s);
          ds = takeWhile is_digit t;
          rest = dropWhile is_digit t
      in if ds = [] then None
         else if hd ds = 48 \<and> 1 < length ds then None
         else if rest \<noteq> [] \<and> (hd rest = 46 \<or> hd rest = 101 \<or> hd rest = 69) then None
         else Some (JNum (if neg then - int (digits_value ds) else int (digits_value ds)), rest))"

definition strip_prefix :: "jstring \<Rightarrow> jstring \<Rightarrow> jstring option" where
  "strip_prefix p s = (if take (length p) s = p then Some (drop (length p) s) else None)"

text \<open>Defining a property: a repeated key keeps its place and takes the last value.\<close>

fun obj_set :: "obj \<Rightarrow> jstring \<Rightarrow> jsval \<Rightarrow> obj" where
  "obj_set [] k v = [(k, v)]"
| "obj_set ((k', v') # fs) k v = (if k' = k then (k, v) # fs else (k', v') # obj_set fs k v)"

text \<open>
  The recursive-descent parser. The first argument bounds the number of nested calls;
  \<open>json_parse\<close> starts it high enough for the whole text.
\<close>

fun parse_value :: "nat \<Rightarrow> jstring \<Rightarrow> (jsval \<times> jstring) option"
  and parse_elems :: "nat \<Rightarrow> jstring \<Rightarrow> jsval list \<Rightarrow> (jsval \<times> jstring) option"
  and parse_members :: "nat \<Rightarrow> jstring \<Rightarrow> obj \<Rightarrow> (jsval \<times> jstring) option"
where
  "parse_value 0 s = None"
| "parse_value (Suc n) s =
     (case skip_ws s of
        [] \<Rightarrow> None
      | c # cs \<Rightarrow>
          if c = 123 then
            (case skip_ws cs of
               [] \<Rightarrow> None
             | d # r \<Rightarrow> if d = 125 then Some (JObj [], r) else parse_members n cs [])
          else if c = 91 then
            (case skip_ws cs of
               [] \<Rightarrow> None
             | d # r \<Rightarrow> if d = 93 then Some (JArr [], r) else parse_elems n cs [])
          else if c = 34 then
            (case parse_chars cs of None \<Rightarrow> None | Some (str, r) \<Rightarrow> Some (JStr str, r))
          else if c = 110 then map_option (Pair JNull) (strip_prefix (js ''null'') (c # cs))
          else if c = 116 then map_option (Pair (JBool True)) (strip_prefix (js ''true'') (c # cs))
          else if c = 102 then map_option (Pair (JBool False)) (strip_prefix (js ''false'') (c # cs))
          else parse_number (c # cs))"
| "parse_elems 0 s acc = None"
| "parse_elems (Suc n) s acc =
     (case parse_value n s of
        None \<Rightarrow> None
      | Some (v, r) \<Rightarrow>
          (case skip_ws r of
             [] \<Rightarrow> None
           | d # r' \<Rightarrow>
               if d = 44 then parse_elems n r' (acc @ [v])
               else if d = 93 then Some (JArr (acc @ [v]), r')
               else None))"
| "parse_members 0 s acc = None"
| "parse_members (Suc n) s acc =
     (case skip_ws s of
        [] \<Rightarrow> None
      | q # cs \<Rightarrow>
          if q \<noteq> 34 then None
          else
            (case parse_chars cs of
               None \<Rightarrow> None
             | Some (k, r) \<Rightarrow>
                 (case skip_ws r of
                    [] \<Rightarrow> None
                  | col # r1 \<Rightarrow>
                      if col \<noteq> 58 then None
                      else
                        (case parse_value n r1 of
                           None \<Rightarrow> None
                         | Some (v, r2) \<Rightarrow>
                             (case skip_ws r2 of
                                [] \<Rightarrow> None
                              | d # r3 \<Rightarrow>
                                  if d = 44 then parse_members n r3 (obj_set acc k v)
                                  else if d = 125 then Some (JObj (obj_set acc k v), r3)
                                  else None)))))"

text \<open>\<open>JSON.parse\<close>; \<open>None\<close> is the SyntaxError it throws.\<close>

definition json_parse :: "jstring \<Rightarrow> jsval option" where
  "json_parse s =
     (case parse_value (2 * length s + 1) s of
        None \<Rightarrow> None
      | Some (v, r) \<Rightarrow> if skip_ws r = [] then Some v else None)"

section \<open>encodeURIComponent and decodeURIComponent\<close>

definition uri_unreserved :: "nat \<Rightarrow> bool" where
  "uri_unreserved c =
     ((65 \<le> c \<and> c \<le> 90) \<or> (97 \<le> c \<and> c \<le> 122) \<or> (48 \<le> c \<and> c \<le> 57)
      \<or> c = 45 \<or> c = 95 \<or> c = 46 \<or> c = 33 \<or> c = 126 \<or> c = 42 \<or> c = 39 \<or> c = 40 \<or> c = 41)"

definition percent_byte :: "nat \<Rightarrow> jstring" where
  "percent_byte b = [37, hex_digit_upper (b div 16), hex_digit_upper (b mod 16)]"

definition encode_point :: "nat \<Rightarrow> jstring" where
  "encode_point cp = (if uri_unreserved cp then [cp] else concat (map percent_byte (utf8_bytes cp)))"

fun encode_points :: "nat option list \<Rightarrow> jstring option" where
  "encode_points [] = Some []"
| "encode_points (None # ps) = None"
| "encode_points (Some cp # ps) = map_option ((@) (encode_point cp)) (encode_points ps)"

text \<open>\<open>None\<close> is the URIError thrown for a lone surrogate.\<close>

definition encodeURIComponent :: "jstring \<Rightarrow> jstring option" where
  "encodeURIComponent s = encode_points (code_points s)"

datatype uri_item = Lit nat | Oct nat

fun uri_items :: "jstring \<Rightarrow> uri_item list option" where
  "uri_items [] = Some []"
| "uri_items (c # cs) =
     (if c = 37 then
        (case cs of
           h # l # r \<Rightarrow>
             (case (hex_value h, hex_value l) of
                (Some a, Some b) \<Rightarrow> map_option ((#) (Oct (a * 16 + b))) (uri_items r)
              | _ \<Rightarrow> None)
         | _ \<Rightarrow> None)
      else map_option ((#) (Lit c)) (uri_items cs))"

definition is_cont :: "nat \<Rightarrow> bool" where
  "is_cont b = (128 \<le> b \<and> b < 192)"

fun utf8_items :: "uri_item list \<Rightarrow> jstring option" where
  "utf8_items [] = Some []"
| "utf8_items (Lit c # r) = map_option ((#) c) (utf8_items r)"
| "utf8_items (Oct b # r) =
     (if b < 128 then map_option ((#) b) (utf8_items r)
      else if 194 \<le> b \<and> b < 224 then
        (case r of
           Oct b1 # r1 \<Rightarrow>
             if is_cont b1 then map_option ((#) ((b - 192) * 64 + (b1 - 128))) (utf8_items r1)
             else None
         | _ \<Rightarrow> None)
      else if 224 \<le> b \<and> b < 240 then
        (case r of
           Oct b1 # Oct b2 # r2 \<Rightarrow>
             (let cp = (b - 224) * 4096 + (b1 - 128) * 64 + (b2 - 128)
              in if is_cont b1 \<and> is_cont b2 \<and> 2048 \<le> cp \<and> \<not> is_surrogate cp
                 then map_option ((#) cp) (utf8_items r2) else None)
         | _ \<Rightarrow> None)
      else if 240 \<le> b \<and> b < 245 then
        (case r of
           Oct b1 # Oct b2 # Oct b3 # r3 \<Rightarrow>
             (let cp = (b - 240) * 262144 + (b1 - 128) * 4096 + (b2 - 128) * 64 + (b3 - 128)
              in if is_cont b1 \<and> is_cont b2 \<and> is_cont b3 \<and> 65536 \<le> cp \<and> cp < 1114112
                 then map_option
                        ((@) [55296 + (cp - 65536) div 1024, 56320 + (cp - 65536) mod 1024])
                        (utf8_items r3)
                 else None)
         | _ \<Rightarrow> None)
      else None)"

text \<open>\<open>None\<close> is the URIError thrown for a malformed escape sequence.\<close>

definition decodeURIComponent :: "jstring \<Rightarrow> jstring option" where
  "decodeURIComponent s = (case uri_items s of None \<Rightarrow> None | Some items \<Rightarrow> utf8_items items)"

section \<open>Operators of the language\<close>

datatype error = TypeError | SyntaxError | URIError | Error

subsection \<open>String.prototype.split and reading an array element\<close>

fun split_on :: "nat \<Rightarrow> jstring \<Rightarrow> jstring list" where
  "split_on sep [] = [[]]"
| "split_on sep (c # cs) =
     (if c = sep then [] # split_on sep cs
      else (case split_on sep cs of [] \<Rightarrow> [[c]] | x # xs \<Rightarrow> (c # x) # xs))"

text \<open>
  \<open>segments[i]\<close> used as a string: an index out of range reads \<open>undefined\<close>, which
  string concatenation writes as the text \<open>undefined\<close>.
\<close>

definition segment_text :: "jstring list \<Rightarrow> nat \<Rightarrow> jstring" where
  "segment_text segments i = (if i < length segments then segments ! i else js ''undefined'')"

subsection \<open>ToString, ToNumber, less-than and loose equality\<close>

fun to_string :: "jsval \<Rightarrow> jstring"
  and elems_strings :: "jsval list \<Rightarrow> jstring list"
where
  "to_string JUndefined = js ''undefined''"
| "to_string JNull = js ''null''"
| "to_string (JBool b) = (if b then js ''true'' else js ''false'')"
| "to_string (JNum n) = int_to_string n"
| "to_string (JStr s) = s"
| "to_string (JArr xs) = join_with 44 (elems_strings xs)"
| "to_string (JObj fs) = js ''[object Object]''"
| "elems_strings [] = []"
| "elems_strings (x # xs) =
     (if x = JUndefined \<or> x = JNull then [] else to_string x) # elems_strings xs"

definition js_ws :: "nat \<Rightarrow> bool" where
  "js_ws c =
     (c = 9 \<or> c = 10 \<or> c = 11 \<or> c = 12 \<or> c = 13 \<or> c = 32 \<or> c = 160 \<or> c = 5760
      \<or> (8192 \<le> c \<and> c \<le> 8202) \<or> c = 8232 \<or> c = 8233 \<or> c = 8239 \<or> c = 8287
      \<or> c = 12288 \<or> c = 65279)"

text \<open>
  The number a string converts to; \<open>None\<close> is NaN. Only signed decimal integers are
  numbers here, as everywhere in this development.
\<close>

definition str_to_number :: "jstring \<Rightarrow> int option" where
  "str_to_number s =
     (let t = rev (dropWhile js_ws (rev (dropWhile js_ws s)));
          neg = (t \<noteq> [] \<and> hd t = 45);
          ds = (if t \<noteq> [] \<and> (hd t = 45 \<or> hd t = 43) then tl t else t)
      in if t = [] then Some 0
         else if ds \<noteq> [] \<and> list_all is_digit ds
         then Some (if neg then - int (digits_value ds) else int (digits_value ds))
         else None)"

definition to_number :: "jsval \<Rightarrow> int option" where
  "to_number v =
     (case v of
        JUndefined \<Rightarrow> None
      | JNull \<Rightarrow> Some 0
      | JBool b \<Rightarrow> Some (if b then 1 else 0)
      | JNum n \<Rightarrow> Some n
      | JStr s \<Rightarrow> str_to_number s
      | _ \<Rightarrow> str_to_number (to_string v))"

text \<open>\<open>v < n\<close> for a number \<open>n\<close>: false when \<open>v\<close> converts to NaN.\<close>

definition js_lt :: "jsval \<Rightarrow> int \<Rightarrow> bool" where
  "js_lt v n = (case to_number v of None \<Rightarrow> False | Some m \<Rightarrow> m < n)"

definition is_nullish :: "jsval \<Rightarrow> bool" where
  "is_nullish v = (v = JUndefined \<or> v = JNull)"

definition is_object :: "jsval \<Rightarrow> bool" where
  "is_object v = (case v of JArr xs \<Rightarrow> True | JObj fs \<Rightarrow> True | _ \<Rightarrow> False)"

text \<open>
  \<open>x == y\<close>. Two objects are equal only when they are the same object; the objects
  compared in this program always come from different allocations (a parsed token and the
  caller's record, or two parsed tokens), so two objects are never equal here.
\<close>

definition loose_eq :: "jsval \<Rightarrow> jsval \<Rightarrow> bool" where
  "loose_eq x y =
     (if is_nullish x \<or> is_nullish y then is_nullish x \<and> is_nullish y
      else if is_object x \<and> is_object y then False
      else
        (case (x, y) of
           (JStr a, JStr b) \<Rightarrow> a = b
         | (JStr a, JArr b) \<Rightarrow> a = to_string y
         | (JStr a, JObj b) \<Rightarrow> a = to_string y
         | (JArr a, JStr b) \<Rightarrow> to_string x = b
         | (JObj a, JStr b) \<Rightarrow> to_string x = b
         | _ \<Rightarrow> to_number x \<noteq> None \<and> to_number x = to_number y))"

subsection \<open>Properties\<close>

definition obj_get :: "obj \<Rightarrow> jstring \<Rightarrow> jsval" where
  "obj_get fs k = (case map_of fs k of None \<Rightarrow> JUndefined | Some v \<Rightarrow> v)"

definition has_own :: "obj \<Rightarrow> jstring \<Rightarrow> bool" where
  "has_own fs k = (map_of fs k \<noteq> None)"

definition array_index :: "jstring \<Rightarrow> nat option" where
  "array_index k =
     (if k \<noteq> [] \<and> list_all is_digit k \<and> (hd k \<noteq> 48 \<or> length k = 1)
      then Some (digits_value k) else None)"

text \<open>
  \<open>v[k]\<close> and \<open>v.k\<close>: a TypeError on \<open>null\<close> and \<open>undefined\<close>, the own property
  otherwise (properties inherited from the built-in prototypes are not modelled).
\<close>

definition get_prop :: "jsval \<Rightarrow> jstring \<Rightarrow> error + jsval" where
  "get_prop v k =
     (case v of
        JUndefined \<Rightarrow> Inl TypeError
      | JNull \<Rightarrow> Inl TypeError
      | JObj fs \<Rightarrow> Inr (obj_get fs k)
      | JArr xs \<Rightarrow>
          Inr (if k = js ''length'' then JNum (int (length xs))
               else (case array_index k of
                       None \<Rightarrow> JUndefined
                     | Some i \<Rightarrow> if i < length xs then xs ! i else JUndefined))
      | JStr s \<Rightarrow>
          Inr (if k = js ''length'' then JNum (int (length s))
               else (case array_index k of
                       None \<Rightarrow> JUndefined
                     | Some i \<Rightarrow> if i < length s then JStr [s ! i] else JUndefined))
      | _ \<Rightarrow> Inr JUndefined)"

text \<open>The keys a \<open>for ... in\<close> loop visits; none for \<open>null\<close> and \<open>undefined\<close>.\<close>

definition enum_keys :: "jsval \<Rightarrow> jstring list" where
  "enum_keys v =
     (case v of
        JObj fs \<Rightarrow> map fst fs
      | JArr xs \<Rightarrow> map dec_digits [0..<length xs]
      | JStr s \<Rightarrow> map dec_digits [0..<length s]
      | _ \<Rightarrow> [])"

section \<open>The class Token\<close>

text \<open>
  Every method of the class is one \<open>try\<close> block with a \<open>catch\<close> that logs the
  error and returns a fixed value. The \<open>try\<close> block is the function with the suffix
  \<open>_try\<close>: it returns \<open>Inl\<close> of the error it throws or \<open>Inr\<close> of what it
  returns. \<open>catch_log\<close> is the \<open>catch\<close>; what the logger writes is not modelled.
  A method that returns a string or an object, or else \<open>false\<close>, has a result of type
  \<open>or_false\<close>; \<open>generateCsrf\<close>, which returns an object or else nothing, has a
  result of type \<open>or_undefined\<close>.
\<close>

datatype 'a or_false = Is 'a | IsFalse


definition catch_log :: "error + 'a \<Rightarrow> 'a \<Rightarrow> 'a" where
  "catch_log block fallback = (case block of Inl err \<Rightarrow> fallback | Inr r \<Rightarrow> r)"

subsection \<open>btoa, atob\<close>

text \<open>\<open>Buffer.from\<close> throws a TypeError when its argument is \<open>undefined\<close>.\<close>

definition btoa :: "jstring option \<Rightarrow> error + jstring" where
  "btoa text =
     (case text of
        None \<Rightarrow> Inl TypeError
      | Some s \<Rightarrow> Inr (base64_encode (buffer_from_binary s)))"

definition atob :: "jstring \<Rightarrow> jstring" where
  "atob text = buffer_to_binary (base64_decode text)"

subsection \<open>encode\<close>

text \<open>
  \<open>encode(data, key)\<close>, lines 48 to 67 of \<open>src/core/lib/token.mjs\<close>. The key is a
  string: of the three tests on it only \<open>key != ''\<close> can fail, and \<open>String(key)\<close>
  is the key.
\<close>

definition token_header :: jsval where
  "token_header = JObj [(js ''alg'', JStr (js ''SHA256''))]"

definition encode_try :: "jsval \<Rightarrow> jstring \<Rightarrow> error + jstring or_false" where
  "encode_try data key =
     (if key \<noteq> [] then
        (case btoa (stringify_val token_header) of
           Inl err \<Rightarrow> Inl err
         | Inr segment0 \<Rightarrow>
             (case btoa (stringify_val data) of
                Inl err \<Rightarrow> Inl err
              | Inr segment1 \<Rightarrow>
                  (let dataSign = segment0 @ [46] @ segment1;
                       sign = base64_encode (hmac_sha512 key dataSign);
                       res = join_with 46 [segment0, segment1, sign]
                   in case encodeURIComponent res of
                        None \<Rightarrow> Inl URIError
                      | Some t \<Rightarrow> Inr (Is t))))
      else Inr IsFalse)"

definition encode :: "jsval \<Rightarrow> jstring \<Rightarrow> jstring or_false" where
  "encode data key = catch_log (encode_try data key) IsFalse"

subsection \<open>decode\<close>

text \<open>
  \<open>decode(token)\<close>, lines 76 to 92. The token is a string, so that \<open>token == null\<close>
  is false.
\<close>

record token_body =
  header :: jsval
  body :: jsval
  sign :: jstring

definition decode_try :: "jstring \<Rightarrow> error + token_body or_false" where
  "decode_try token =
     (if token = [] then Inr IsFalse
      else
        (case decodeURIComponent token of
           None \<Rightarrow> Inl URIError
         | Some text \<Rightarrow>
             (let segments = split_on 46 text
              in if length segments < 3 then Inr IsFalse
                 else
                   (case json_parse (atob (segments ! 0)) of
                      None \<Rightarrow> Inl SyntaxError
                    | Some h \<Rightarrow>
                        (case json_parse (atob (segments ! 1)) of
                           None \<Rightarrow> Inl SyntaxError
                         | Some b \<Rightarrow>
                             Inr (Is \<lparr>header = h, body = b, sign = segments ! 2\<rparr>))))))"

definition decode :: "jstring \<Rightarrow> token_body or_false" where
  "decode token = catch_log (decode_try token) IsFalse"

subsection \<open>validate\<close>

text \<open>\<open>validate(token, key)\<close>, lines 103 to 127.\<close>

record result =
  success :: bool
  message :: jstring

text \<open>The five messages of \<open>validate\<close>, as the code units of the source's literals.\<close>

definition msg_corrupted :: jstring where
  \<comment> \<open>the token is damaged\<close>
  "msg_corrupted =
     [1058, 1086, 1082, 1077, 1085, 32, 1087, 1086, 1074, 1088, 1077, 1078, 1076, 1077, 1085]"

definition msg_expired :: jstring where
  \<comment> \<open>the token's lifetime has run out\<close>
  "msg_expired =
     [1042, 1088, 1077, 1084, 1103, 32, 1076, 1077, 1081, 1089, 1090, 1074, 1080, 1103, 32,
      1090, 1086, 1082, 1077, 1085, 1072, 32, 1080, 1089, 1090, 1077, 1082, 1083, 1086]"

definition msg_invalid :: jstring where
  \<comment> \<open>invalid token\<close>
  "msg_invalid =
     [1053, 1077, 1076, 1077, 1081, 1089, 1090, 1074, 1080, 1090, 1077, 1083, 1100, 1085,
      1099, 1081, 32, 1090, 1086, 1082, 1077, 1085]"

definition msg_valid :: jstring where
  \<comment> \<open>valid token\<close>
  "msg_valid =
     [1044, 1077, 1081, 1089, 1090, 1074, 1080, 1090, 1077, 1083, 1100, 1085, 1099, 1081, 32,
      1090, 1086, 1082, 1077, 1085]"

definition msg_error :: jstring where
  \<comment> \<open>token check error\<close>
  "msg_error =
     [1054, 1096, 1080, 1073, 1082, 1072, 32, 1087, 1088, 1086, 1074, 1077, 1088, 1082, 1080,
      32, 1090, 1086, 1082, 1077, 1085, 1072]"

text \<open>\<open>now\<close> is the timestamp of the \<open>Time\<close> object the method creates.\<close>

definition validate_try :: "int \<Rightarrow> jstring \<Rightarrow> jstring \<Rightarrow> error + result" where
  "validate_try now token key =
     (case decode token of
        IsFalse \<Rightarrow> Inr \<lparr>success = False, message = msg_corrupted\<rparr>
      | Is data \<Rightarrow>
          (case get_prop (body data) (js ''exp'') of
             Inl err \<Rightarrow> Inl err
           | Inr exp \<Rightarrow>
               if js_lt exp now then Inr \<lparr>success = True, message = msg_expired\<rparr>
               else
                 (case decodeURIComponent token of
                    None \<Rightarrow> Inl URIError
                  | Some text \<Rightarrow>
                      (let segments = split_on 46 text;
                           dataSign = segment_text segments 0 @ [46] @ segment_text segments 1;
                           sign' = base64_encode (hmac_sha512 key dataSign)
                       in if sign data \<noteq> sign'
                          then Inr \<lparr>success = False, message = msg_invalid\<rparr>
                          else Inr \<lparr>success = True, message = msg_valid\<rparr>))))"

definition validate :: "int \<Rightarrow> jstring \<Rightarrow> jstring \<Rightarrow> result" where
  "validate now token key =
     catch_log (validate_try now token key) \<lparr>success = False, message = msg_error\<rparr>"

subsection \<open>verify\<close>

text \<open>
  \<open>verify(user, accessKey, accessToken, refreshKey, refreshToken)\<close>, lines 142 to 174.
  The identity \<open>user\<close> is a plain object, given by its own properties.
\<close>

text \<open>
  A \<open>for ... in\<close> loop whose body returns \<open>false\<close> from the method when the test
  \<open>differs key\<close> holds: the result is whether some key made it return.
\<close>

fun for_in_returns :: "jstring list \<Rightarrow> (jstring \<Rightarrow> error + bool) \<Rightarrow> error + bool" where
  "for_in_returns [] differs = Inr False"
| "for_in_returns (key # keys) differs =
     (case differs key of
        Inl err \<Rightarrow> Inl err
      | Inr d \<Rightarrow> if d then Inr True else for_in_returns keys differs)"

definition differs_from_user :: "jsval \<Rightarrow> obj \<Rightarrow> jstring \<Rightarrow> error + bool" where
  "differs_from_user adata user key =
     (case get_prop adata key of
        Inl err \<Rightarrow> Inl err
      | Inr v \<Rightarrow> Inr (\<not> loose_eq v (obj_get user key)))"

definition differs_from_refresh :: "jsval \<Rightarrow> token_body \<Rightarrow> jstring \<Rightarrow> error + bool" where
  "differs_from_refresh adata infoRefresh key =
     (case get_prop adata key of
        Inl err \<Rightarrow> Inl err
      | Inr v \<Rightarrow>
          (case get_prop (body infoRefresh) (js ''data'') of
             Inl err \<Rightarrow> Inl err
           | Inr rdata \<Rightarrow>
               (case get_prop rdata key of
                  Inl err \<Rightarrow> Inl err
                | Inr w \<Rightarrow> Inr (\<not> loose_eq v w))))"

text \<open>
  \<open>now1\<close> and \<open>now2\<close> are the clock readings of the two calls of \<open>validate\<close>.
  The parameters \<open>refreshKey\<close> and \<open>refreshToken\<close> are \<open>None\<close> when \<open>null\<close>.
\<close>

definition verify_try ::
  "int \<Rightarrow> int \<Rightarrow> obj \<Rightarrow> jstring \<Rightarrow> jstring \<Rightarrow> jstring option \<Rightarrow> jstring option \<Rightarrow> error + bool"
where
  "verify_try now1 now2 user accessKey accessToken refreshKey refreshToken =
     (case decode accessToken of
        IsFalse \<Rightarrow> Inr False
      | Is infoAccess \<Rightarrow>
          if \<not> has_own user (js ''userId'') \<or> \<not> has_own user (js ''userKey'')
             \<or> \<not> has_own user (js ''userRkey'')
          then Inr False
          else
            (case get_prop (body infoAccess) (js ''data'') of
               Inl err \<Rightarrow> Inl err
             | Inr adata \<Rightarrow>
                 (case for_in_returns (enum_keys adata) (differs_from_user adata user) of
                    Inl err \<Rightarrow> Inl err
                  | Inr True \<Rightarrow> Inr False
                  | Inr False \<Rightarrow>
                      if \<not> success (validate now1 accessToken accessKey) then
                        (case (refreshKey, refreshToken) of
                           (Some rkey, Some rtoken) \<Rightarrow>
                             (case decode rtoken of
                                IsFalse \<Rightarrow> Inr False
                              | Is infoRefresh \<Rightarrow>
                                  (case for_in_returns (enum_keys adata)
                                          (differs_from_refresh adata infoRefresh) of
                                     Inl err \<Rightarrow> Inl err
                                   | Inr True \<Rightarrow> Inr False
                                   | Inr False \<Rightarrow> Inr (success (validate now2 rtoken rkey))))
                         | _ \<Rightarrow> Inr False)
                      else Inr True)))"

definition verify ::
  "int \<Rightarrow> int \<Rightarrow> obj \<Rightarrow> jstring \<Rightarrow> jstring \<Rightarrow> jstring option \<Rightarrow> jstring option \<Rightarrow> bool"
where
  "verify now1 now2 user accessKey accessToken refreshKey refreshToken =
     catch_log (verify_try now1 now2 user accessKey accessToken refreshKey refreshToken) False"

subsection \<open>generate\<close>

text \<open>\<open>generate(user, accessKey, refreshKey)\<close>, lines 194 to 220.\<close>

text \<open>
  \<open>generate\<close> builds a local object \<open>data\<close> whose property \<open>data\<close> is a reference
  to the caller's \<open>user\<close> object, and later assigns to \<open>data.exp\<close>. Objects therefore
  live in a heap, a list of cells addressed by position: a \<open>Plain\<close> cell is an object
  of the caller, a \<open>Payload\<close> cell is the local object with its four properties
  \<open>iss\<close>, \<open>gen\<close>, \<open>exp\<close> and \<open>data\<close>, the last one an address.
\<close>

datatype cell = Plain obj | Payload jsval int int nat

type_synonym heap = "cell list"

definition alloc :: "heap \<Rightarrow> cell \<Rightarrow> heap \<times> nat" where
  "alloc h c = (h @ [c], length h)"

text \<open>The value \<open>JSON.stringify\<close> sees when it follows an address.\<close>

definition plain_value :: "heap \<Rightarrow> nat \<Rightarrow> jsval" where
  "plain_value h a =
     (if a < length h then (case h ! a of Plain fs \<Rightarrow> JObj fs | _ \<Rightarrow> JUndefined)
      else JUndefined)"

definition payload_value :: "heap \<Rightarrow> nat \<Rightarrow> jsval" where
  "payload_value h a =
     (if a < length h then
        (case h ! a of
           Payload i g e d \<Rightarrow>
             JObj [(js ''iss'', i), (js ''gen'', JNum g), (js ''exp'', JNum e),
                   (js ''data'', plain_value h d)]
         | Plain fs \<Rightarrow> JObj fs)
      else JUndefined)"

definition payload_exp :: "heap \<Rightarrow> nat \<Rightarrow> int" where
  "payload_exp h a = (case h ! a of Payload i g e d \<Rightarrow> e | _ \<Rightarrow> 0)"

definition set_exp :: "heap \<Rightarrow> nat \<Rightarrow> int \<Rightarrow> heap" where
  "set_exp h a e' = (case h ! a of Payload i g e d \<Rightarrow> h[a := Payload i g e' d] | _ \<Rightarrow> h)"

text \<open>The configuration object \<open>Token.#CONFIG\<close>; it is \<open>None\<close> until \<open>setConfig\<close> ran.\<close>

record config =
  DOMAIN :: jsval
  LTT :: int
  LTRT :: int

record tokens =
  accessToken :: jstring
  refreshToken :: "jstring option"
  dateAccess :: int
  dateRefresh :: "int option"

text \<open>\<open>token == false\<close> for the result of \<open>encode\<close>.\<close>

definition is_false :: "jstring or_false \<Rightarrow> bool" where
  "is_false token = (case token of IsFalse \<Rightarrow> True | Is t \<Rightarrow> loose_eq (JStr t) (JBool False))"

definition generate_try ::
  "config option \<Rightarrow> int \<Rightarrow> heap \<Rightarrow> nat \<Rightarrow> jstring \<Rightarrow> jstring \<Rightarrow> (error + tokens) \<times> heap"
where
  "generate_try CONFIG now h user accessKey refreshKey =
     (case CONFIG of
        None \<Rightarrow> (Inl TypeError, h)
      | Some c \<Rightarrow>
          (let (h1, data) =
                 alloc h (Payload (DOMAIN c) now (now + ((3600 * 1000) * 24 * LTT c)) user);
               token = encode (payload_value h1 data) accessKey
           in case token of
                IsFalse \<Rightarrow> (Inl Error, h1)
              | Is tok \<Rightarrow>
                  if is_false token then (Inl Error, h1)
                  else if refreshKey \<noteq> [] then
                    (let dateAccess' = payload_exp h1 data;
                         h2 = set_exp h1 data (now + ((3600 * 1000) * 24 * LTRT c));
                         dateRefresh' = payload_exp h2 data;
                         refreshToken' = encode (payload_value h2 data) refreshKey
                     in case refreshToken' of
                          IsFalse \<Rightarrow> (Inl Error, h2)
                        | Is rtok \<Rightarrow>
                            if is_false refreshToken' then (Inl Error, h2)
                            else
                              (Inr \<lparr>accessToken = tok, refreshToken = Some rtok,
                                    dateAccess = dateAccess', dateRefresh = Some dateRefresh'\<rparr>,
                               h2))
                  else
                    (Inr \<lparr>accessToken = tok, refreshToken = None,
                          dateAccess = payload_exp h1 data, dateRefresh = None\<rparr>,
                     h1)))"

text \<open>
  The result of \<open>generate\<close> with the heap it leaves. The property \<open>success: 1\<close> of
  the returned object is constant and left out of \<open>tokens\<close>.
\<close>

definition generate ::
  "config option \<Rightarrow> int \<Rightarrow> heap \<Rightarrow> nat \<Rightarrow> jstring \<Rightarrow> jstring \<Rightarrow> tokens or_false \<times> heap"
where
  "generate CONFIG now h user accessKey refreshKey =
     (let (r, h') = generate_try CONFIG now h user accessKey refreshKey
      in (catch_log (map_sum id Is r) IsFalse, h'))"

subsection \<open>generateCsrf, verifyCsrf\<close>

text \<open>
  \<open>generateCsrf(id, csrfKey)\<close>, lines 231 to 242, and \<open>verifyCsrf(key, data, token)\<close>,
  lines 251 to 259.
\<close>








section \<open>Notions used to state the properties\<close>

text \<open>
  The text \<open>validate\<close> signs again: the first two segments of the percent-decoded token,
  joined by a dot.
\<close>

definition signed_part :: "jstring \<Rightarrow> jstring" where
  "signed_part token =
     (case decodeURIComponent token of
        None \<Rightarrow> []
      | Some t \<Rightarrow> segment_text (split_on 46 t) 0 @ [46] @ segment_text (split_on 46 t) 1)"

text \<open>The value of a property, \<open>undefined\<close> where reading it throws.\<close>

definition prop_value :: "jsval \<Rightarrow> jstring \<Rightarrow> jsval" where
  "prop_value v k = (case get_prop v k of Inl err \<Rightarrow> JUndefined | Inr x \<Rightarrow> x)"

text \<open>The capability check of \<open>verify\<close>: the three own properties of the identity.\<close>

definition has_capability :: "obj \<Rightarrow> bool" where
  "has_capability user =
     (has_own user (js ''userId'') \<and> has_own user (js ''userKey'')
      \<and> has_own user (js ''userRkey''))"

text \<open>
  The identity binding of \<open>verify\<close>: every key of the token's \<open>data\<close> has a value
  loosely equal to the identity's property of the same name.
\<close>

definition data_matches :: "jsval \<Rightarrow> obj \<Rightarrow> bool" where
  "data_matches adata user =
     list_all (\<lambda>key. loose_eq (prop_value adata key) (obj_get user key)) (enum_keys adata)"

subsection \<open>Inputs of the examples\<close>

text \<open>
  Two tokens written by hand, with the signature \<open>x\<close>. The header of both is
  \<open>{}\<close>; the payload of the first is \<open>null\<close>, the payload of the second is
  \<open>{"exp":1,"data":{"userId":"u1"}}\<close>.
\<close>

definition null_body_token :: jstring where
  "null_body_token = js ''e30=.bnVsbA==.x''"

definition expired_token :: jstring where
  "expired_token = js ''e30=.eyJleHAiOjEsImRhdGEiOnsidXNlcklkIjoidTEifX0=.x''"

definition expired_token_body :: token_body where
  "expired_token_body =
     \<lparr>header = JObj [],
      body = JObj [(js ''exp'', JNum 1), (js ''data'', JObj [(js ''userId'', JStr (js ''u1''))])],
      sign = js ''x''\<rparr>"

text \<open>The identity of the scenario, and an identity without \<open>userRkey\<close>.\<close>

definition scenario_identity :: obj where
  "scenario_identity =
     [(js ''userId'', JStr (js ''u1'')), (js ''userKey'', JStr (js ''k1'')),
      (js ''userRkey'', JStr (js ''k2''))]"

definition partial_identity :: obj where
  "partial_identity = [(js ''userId'', JStr (js ''u1'')), (js ''userKey'', JStr (js ''k1''))]"

definition scenario_config :: config where
  "scenario_config = \<lparr>DOMAIN = JStr (js ''example.com''), LTT = 1, LTRT = 30\<rparr>"

subsection \<open>Payloads that JSON text represents exactly\<close>

text \<open>
  A value survives \<open>encode\<close> and \<open>decode\<close> unchanged when it contains no
  \<open>undefined\<close>, the keys of each of its objects are distinct, and all its strings and
  keys are Latin-1 (code units below 256): \<open>btoa\<close> keeps only the low byte of a code
  unit.
\<close>

fun json_ok :: "jsval \<Rightarrow> bool"
  and json_ok_elems :: "jsval list \<Rightarrow> bool"
  and json_ok_members :: "(jstring \<times> jsval) list \<Rightarrow> bool"
where
  "json_ok JUndefined = False"
| "json_ok JNull = True"
| "json_ok (JBool b) = True"
| "json_ok (JNum n) = True"
| "json_ok (JStr s) = latin1 s"
| "json_ok (JArr xs) = json_ok_elems xs"
| "json_ok (JObj fs) = json_ok_members fs"
| "json_ok_elems [] = True"
| "json_ok_elems (x # xs) = (json_ok x \<and> json_ok_elems xs)"
| "json_ok_members [] = True"
| "json_ok_members ((k, v) # fs) =
     (latin1 k \<and> json_ok v \<and> k \<notin> fst ` set fs \<and> json_ok_members fs)"

text \<open>What \<open>decode\<close> gives for the token \<open>encode\<close> made; \<open>decode(false)\<close> is \<open>false\<close>.\<close>

definition roundtrip :: "jsval \<Rightarrow> jstring \<Rightarrow> token_body or_false" where
  "roundtrip data key = (case encode data key of IsFalse \<Rightarrow> IsFalse | Is t \<Rightarrow> decode t)"

text \<open>
  The base64 segment of a value, the signature \<open>encode\<close> computes over the header and
  payload segments, percent-encoding of a text without surrogates, and the token
  \<open>encode\<close> returns.
\<close>

definition b64_json :: "jsval \<Rightarrow> jstring" where
  "b64_json v = (case btoa (stringify_val v) of Inl err \<Rightarrow> [] | Inr s \<Rightarrow> s)"

definition signature :: "jstring \<Rightarrow> jsval \<Rightarrow> jstring" where
  "signature key data =
     base64_encode (hmac_sha512 key (b64_json token_header @ 46 # b64_json data))"

definition wire :: "jstring \<Rightarrow> jstring" where
  "wire s = concat (map encode_point s)"

definition token_for :: "jsval \<Rightarrow> jstring \<Rightarrow> jstring" where
  "token_for data key =
     wire (b64_json token_header @ 46 # b64_json data @ 46 # signature key data)"

text \<open>The payload \<open>generate\<close> signs, and the milliseconds of a day.\<close>

definition payload :: "jsval \<Rightarrow> int \<Rightarrow> int \<Rightarrow> jsval \<Rightarrow> jsval" where
  "payload iss gen exp data =
     JObj [(js ''iss'', iss), (js ''gen'', JNum gen), (js ''exp'', JNum exp), (js ''data'', data)]"

definition day_ms :: int where
  "day_ms = 86400000"

text \<open>The cross-check of \<open>verify\<close> between the access and the refresh payload.\<close>

definition refresh_matches :: "jsval \<Rightarrow> token_body \<Rightarrow> bool" where
  "refresh_matches adata infoRefresh =
     (for_in_returns (enum_keys adata) (differs_from_refresh adata infoRefresh) = Inr False)"

text \<open>
  \<open>A'\<close> is \<open>A\<close> with a damaged signature: both percent-decode, both have three
  segments, the first two segments agree and the third differs.
\<close>

definition signature_corrupted :: "jstring \<Rightarrow> jstring \<Rightarrow> bool" where
  "signature_corrupted A A' =
     (case (decodeURIComponent A, decodeURIComponent A') of
        (Some t, Some t') \<Rightarrow>
          (case (split_on 46 t, split_on 46 t') of
             ([a, b, c], [a', b', c']) \<Rightarrow> a' = a \<and> b' = b \<and> c' \<noteq> c
           | _ \<Rightarrow> False)
      | _ \<Rightarrow> False)"

text \<open>The tokens of the scenario.\<close>

definition scenario_now :: int where
  "scenario_now = 1700000000000"

definition scenario_tokens :: "tokens or_false" where
  "scenario_tokens =
     fst (generate (Some scenario_config) scenario_now [Plain scenario_identity] 0
            (js ''k1'') (js ''k2''))"

definition scenario_access :: jstring where
  "scenario_access = (case scenario_tokens of IsFalse \<Rightarrow> [] | Is r \<Rightarrow> accessToken r)"

definition scenario_refresh :: "jstring option" where
  "scenario_refresh = (case scenario_tokens of IsFalse \<Rightarrow> None | Is r \<Rightarrow> refreshToken r)"

subsection \<open>Notions of the proofs\<close>

text \<open>
  Texts of base64 characters, ASCII texts, the items \<open>decodeURIComponent\<close> reads from
  an encoded ASCII character, the number of nested parser calls a value needs, and what
  may follow a value inside a JSON text.
\<close>

definition b64_text :: "jstring \<Rightarrow> bool" where
  "b64_text s = list_all (\<lambda>c. c < 128 \<and> c \<noteq> 46 \<and> c \<noteq> 37) s"

definition ascii :: "jstring \<Rightarrow> bool" where
  "ascii s = list_all (\<lambda>c. c < 128) s"

definition item_of :: "nat \<Rightarrow> uri_item" where
  "item_of c = (if uri_unreserved c then Lit c else Oct c)"

fun need_val :: "jsval \<Rightarrow> nat"
  and need_elems :: "jsval list \<Rightarrow> nat"
  and need_members :: "(jstring \<times> jsval) list \<Rightarrow> nat"
where
  "need_val JUndefined = 1"
| "need_val JNull = 1"
| "need_val (JBool b) = 1"
| "need_val (JNum n) = 1"
| "need_val (JStr s) = 1"
| "need_val (JArr xs) = Suc (need_elems xs)"
| "need_val (JObj fs) = Suc (need_members fs)"
| "need_elems [] = 0"
| "need_elems (x # xs) = Suc (need_val x + need_elems xs)"
| "need_members [] = 0"
| "need_members ((k, v) # fs) = Suc (need_val v + need_members fs)"

definition delim :: "jstring \<Rightarrow> bool" where
  "delim rest = (rest = [] \<or> hd rest = 44 \<or> hd rest = 93 \<or> hd rest = 125)"

definition first_ok :: "jstring \<Rightarrow> bool" where
  "first_ok t = (t \<noteq> [] \<and> \<not> json_ws (hd t) \<and> hd t \<noteq> 93 \<and> hd t \<noteq> 125)"

section \<open>Facts about the platform functions\<close>

subsection \<open>Base64\<close>

lemma b64_value_char: "n < 64 \<Longrightarrow> b64_value (b64_char n) = Some n"
  by (auto simp: b64_value_def b64_char_def)

lemma b64_char_not_pad: "b64_char n \<noteq> 61"
  by (auto simp: b64_char_def)

lemma b64_char_not_dot: "b64_char n \<noteq> 46"
  by (auto simp: b64_char_def)

lemma sextets_char: "n < 64 \<Longrightarrow> sextets (b64_char n # s) = n # sextets s"
  by (simp add: sextets_def b64_char_not_pad b64_value_char map_filter_simps)

lemma sextets_pad: "sextets (61 # s) = []"
  by (simp add: sextets_def map_filter_simps)

lemma sextets_nil: "sextets [] = []"
  by (simp add: sextets_def map_filter_simps)

lemma f1: "b < 256 \<Longrightarrow> b div 16 div 16 = (0::nat)" by (simp add: div_mult2_eq [symmetric])
lemma f2: "c < 256 \<Longrightarrow> c div 64 div 4 = (0::nat)" by (simp add: div_mult2_eq [symmetric])
lemma f3: "b div 16 mod 16 * 16 + b mod 16 = (b::nat)" if "b < 256" 
proof -
  have "b div 16 < 16" using that by simp
  then have "b div 16 mod 16 = b div 16" by simp
  then show ?thesis by simp
qed
lemma f4: "c div 64 mod 4 * 64 + c mod 64 = (c::nat)" if "c < 256"
proof -
  have "c div 64 < 4" using that by simp
  then have "c div 64 mod 4 = c div 64" by simp
  then show ?thesis by simp
qed
lemma f5: "a < 256 \<Longrightarrow> a div 4 < (64::nat)" by simp
lemma f6: "b < 256 \<Longrightarrow> a mod 4 * 16 + b div 16 < (64::nat)" 
proof -
  assume "b < 256"
  then have "b div 16 < 16" by simp
  moreover have "a mod 4 < 4" by simp
  ultimately show ?thesis by linarith
qed
lemma f7: "c < 256 \<Longrightarrow> b mod 16 * 4 + c div 64 < (64::nat)"
proof -
  assume "c < 256"
  then have "c div 64 < 4" by simp
  moreover have "b mod 16 < 16" by simp
  ultimately show ?thesis by linarith
qed
lemma f8: "a div 4 * 4 + a mod 4 = (a::nat)" by simp
lemma f9: "a mod 4 * 16 < (64::nat)"
proof -
  have "a mod 4 < 4" by simp
  then show ?thesis by linarith
qed
lemma f10: "b mod 16 * 4 < (64::nat)"
proof -
  have "b mod 16 < 16" by simp
  then show ?thesis by linarith
qed

lemma group3:
  assumes "a < 256" "b < 256" "c < 256"
  shows "sextets_to_bytes (sextets (b64_char (a div 4) # b64_char (a mod 4 * 16 + b div 16)
            # b64_char (b mod 16 * 4 + c div 64) # b64_char (c mod 64) # s))
         = a # b # c # sextets_to_bytes (sextets s)"
proof -
  have "sextets (b64_char (a div 4) # b64_char (a mod 4 * 16 + b div 16)
            # b64_char (b mod 16 * 4 + c div 64) # b64_char (c mod 64) # s)
        = a div 4 # (a mod 4 * 16 + b div 16) # (b mod 16 * 4 + c div 64) # c mod 64 # sextets s"
    using assms by (simp add: sextets_char f5 f6 f7)
  then show ?thesis
    using assms by (simp add: f1 f2 f3 f4)
qed

lemma group2:
  assumes "a < 256" "b < 256"
  shows "sextets_to_bytes (sextets [b64_char (a div 4), b64_char (a mod 4 * 16 + b div 16),
            b64_char (b mod 16 * 4), 61]) = [a, b]"
proof -
  have "sextets [b64_char (a div 4), b64_char (a mod 4 * 16 + b div 16),
            b64_char (b mod 16 * 4), 61]
        = [a div 4, a mod 4 * 16 + b div 16, b mod 16 * 4]"
    using assms by (simp add: sextets_char sextets_pad f5 f6 f10)
  then show ?thesis
    using assms by (simp add: f1 f3)
qed

lemma group1:
  assumes "a < 256"
  shows "sextets_to_bytes (sextets [b64_char (a div 4), b64_char (a mod 4 * 16), 61, 61]) = [a]"
proof -
  have "sextets [b64_char (a div 4), b64_char (a mod 4 * 16), 61, 61] = [a div 4, a mod 4 * 16]"
    using assms by (simp add: sextets_char sextets_pad f5 f9)
  then show ?thesis by simp
qed

lemma base64_roundtrip:
  "list_all (\<lambda>b. b < 256) bs \<Longrightarrow> sextets_to_bytes (sextets (base64_encode bs)) = bs"
proof (induction bs rule: base64_encode.induct)
  case (1 a b c rest)
  then show ?case by (simp add: group3)
next
  case (2 a b)
  then show ?case using group2 [of a b] by simp
next
  case (3 a)
  then show ?case using group1 [of a] by simp
next
  case 4
  then show ?case by (simp add: sextets_nil)
qed

lemma atob_btoa: "btoa (Some s) = Inr t \<Longrightarrow> atob t = map (\<lambda>c. c mod 256) s"
proof -
  assume "btoa (Some s) = Inr t"
  then have t: "t = base64_encode (map (\<lambda>c. c mod 256) s)"
    by (simp add: btoa_def buffer_from_binary_def)
  have "list_all (\<lambda>b. b < 256) (map (\<lambda>c. c mod 256) s)"
    by (simp add: list_all_iff)
  then show ?thesis
    using base64_roundtrip [of "map (\<lambda>c. c mod 256) s"]
    by (simp add: t atob_def base64_decode_def buffer_to_binary_def sextets_def)
qed

lemma b64_char_ascii: "b64_char n < 128 \<and> b64_char n \<noteq> 37"
  by (auto simp: b64_char_def)

lemma base64_encode_text: "b64_text (base64_encode bs)"
  by (induction bs rule: base64_encode.induct)
    (simp_all add: b64_text_def b64_char_ascii b64_char_not_dot)

lemma code_points_plain:
  "list_all (\<lambda>c. \<not> is_surrogate c) s \<Longrightarrow> code_points s = map Some s"
  by (induction s rule: code_points.induct)
    (auto simp: is_surrogate_def is_high_surrogate_def is_low_surrogate_def)

lemma ascii_not_surrogate: "ascii s \<Longrightarrow> list_all (\<lambda>c. \<not> is_surrogate c) s"
  by (induction s) (auto simp: ascii_def is_surrogate_def)

lemma encode_points_plain:
  "encode_points (map Some s) = Some (concat (map encode_point s))"
  by (induction s) auto

lemma encodeURIComponent_ascii:
  "ascii s \<Longrightarrow> encodeURIComponent s = Some (concat (map encode_point s))"
  by (simp add: encodeURIComponent_def code_points_plain ascii_not_surrogate encode_points_plain)

lemma hex_value_upper: "d < 16 \<Longrightarrow> hex_value (hex_digit_upper d) = Some d"
  by (auto simp: hex_value_def hex_digit_upper_def)

lemma hex_value_lower: "d < 16 \<Longrightarrow> hex_value (hex_digit d) = Some d"
  by (auto simp: hex_value_def hex_digit_def)

lemma unreserved_not_percent: "uri_unreserved c \<Longrightarrow> c \<noteq> 37"
  by (auto simp: uri_unreserved_def)

lemma uri_items_point:
  assumes "c < 128"
  shows "uri_items (encode_point c @ r) = map_option ((#) (item_of c)) (uri_items r)"
proof (cases "uri_unreserved c")
  case True
  then show ?thesis
    by (simp add: encode_point_def item_of_def unreserved_not_percent)
next
  case False
  have "c div 16 < 16" using assms by simp
  moreover have "c mod 16 < 16" by simp
  ultimately show ?thesis
    using False assms
    by (simp add: encode_point_def item_of_def utf8_bytes_def percent_byte_def hex_value_upper)
qed

lemma uri_items_encoded:
  "ascii s \<Longrightarrow>
   uri_items (concat (map encode_point s) @ r) = map_option ((@) (map item_of s)) (uri_items r)"
proof (induction s)
  case Nil
  then show ?case by (simp add: option.map_ident)
next
  case (Cons c s)
  then have c: "c < 128" and s: "ascii s" by (simp_all add: ascii_def)
  show ?case
    using Cons.IH [OF s] by (simp add: uri_items_point [OF c] option.map_comp comp_def)
qed

lemma utf8_items_ascii:
  "ascii s \<Longrightarrow> utf8_items (map item_of s @ its) = map_option ((@) s) (utf8_items its)"
proof (induction s)
  case Nil
  then show ?case by (simp add: option.map_ident)
next
  case (Cons c s)
  then have c: "c < 128" and s: "ascii s" by (simp_all add: ascii_def)
  show ?case
    using Cons.IH [OF s] c by (simp add: item_of_def option.map_comp comp_def)
qed

lemma decodeURIComponent_encoded:
  assumes "ascii s"
  shows "decodeURIComponent (concat (map encode_point s) @ r) = map_option ((@) s) (decodeURIComponent r)"
  using assms
  by (cases "uri_items r")
    (simp_all add: decodeURIComponent_def uri_items_encoded utf8_items_ascii)

lemma uri_roundtrip:
  "ascii s \<Longrightarrow> encodeURIComponent s = Some t \<Longrightarrow> decodeURIComponent t = Some s"
  using decodeURIComponent_encoded [of s "[]"]
  by (simp add: encodeURIComponent_ascii decodeURIComponent_def)

lemma split_on_no_sep: "sep \<notin> set s \<Longrightarrow> split_on sep s = [s]"
  by (induction s) auto

lemma split_on_nonempty: "split_on sep s \<noteq> []"
  by (induction s) (auto split: list.splits)

lemma split_on_append: "sep \<notin> set a \<Longrightarrow> split_on sep (a @ sep # r) = a # split_on sep r"
  by (induction a) (auto split: list.splits)

lemma split_three:
  "46 \<notin> set a \<Longrightarrow> 46 \<notin> set b \<Longrightarrow> 46 \<notin> set c \<Longrightarrow>
   split_on 46 (a @ [46] @ b @ [46] @ c) = [a, b, c]"
  by (simp add: split_on_append split_on_no_sep)

subsection \<open>Digits\<close>

lemma digits_value_snoc: "digits_value (ds @ [d]) = digits_value ds * 10 + (d - 48)"
  by (simp add: digits_value_def)

lemma dec_digits_props:
  "dec_digits n \<noteq> [] \<and> list_all is_digit (dec_digits n) \<and> digits_value (dec_digits n) = n
   \<and> (hd (dec_digits n) = 48 \<longrightarrow> n = 0)"
proof (induction n rule: dec_digits.induct)
  case (1 n)
  show ?case
  proof (cases "n < 10")
    case True
    then show ?thesis
      by (subst (1 2 3 4) dec_digits.simps) (simp add: is_digit_def digits_value_def)
  next
    case False
    with 1 have ih: "dec_digits (n div 10) \<noteq> []" "list_all is_digit (dec_digits (n div 10))"
      "digits_value (dec_digits (n div 10)) = n div 10"
      "hd (dec_digits (n div 10)) = 48 \<longrightarrow> n div 10 = 0"
      by simp_all
    have e: "dec_digits n = dec_digits (n div 10) @ [48 + n mod 10]"
      using False by (subst dec_digits.simps) simp
    have "n div 10 \<noteq> 0" using False by simp
    moreover have "is_digit (48 + n mod 10)" by (simp add: is_digit_def)
    ultimately show ?thesis
      using ih by (simp add: e digits_value_snoc)
  qed
qed

lemma dec_digits_zero: "dec_digits 0 = [48]"
  by (subst dec_digits.simps) simp

lemma takeWhile_digits:
  "list_all is_digit ds \<Longrightarrow> rest = [] \<or> \<not> is_digit (hd rest) \<Longrightarrow>
   takeWhile is_digit (ds @ rest) = ds \<and> dropWhile is_digit (ds @ rest) = rest"
proof (induction ds)
  case Nil
  then show ?case by (cases rest) auto
next
  case (Cons d ds)
  then show ?case by simp
qed

lemma delim_not_digit: "delim rest \<Longrightarrow> rest = [] \<or> \<not> is_digit (hd rest)"
  by (auto simp: delim_def is_digit_def)

lemma delim_not_frac: "delim rest \<Longrightarrow> \<not> (rest \<noteq> [] \<and> (hd rest = 46 \<or> hd rest = 101 \<or> hd rest = 69))"
  by (auto simp: delim_def)

lemma parse_number_digits:
  assumes "delim rest"
  shows "parse_number (dec_digits n @ rest) = Some (JNum (int n), rest)"
proof -
  let ?ds = "dec_digits n"
  have p: "?ds \<noteq> []" "list_all is_digit ?ds" "digits_value ?ds = n" "hd ?ds = 48 \<longrightarrow> n = 0"
    using dec_digits_props [of n] by simp_all
  then have h: "hd (?ds @ rest) \<noteq> 45"
    by (cases ?ds) (auto simp: is_digit_def)
  have tw: "takeWhile is_digit (?ds @ rest) = ?ds" "dropWhile is_digit (?ds @ rest) = rest"
    using takeWhile_digits [OF p(2) delim_not_digit [OF assms]] by simp_all
  have lz: "\<not> (hd ?ds = 48 \<and> 1 < length ?ds)"
    using p(4) by (auto simp: dec_digits_zero)
  show ?thesis
    unfolding parse_number_def Let_def
    using p(1) h lz delim_not_frac [OF assms] by (simp add: tw p(3))
qed

lemma parse_number_int:
  assumes "delim rest"
  shows "parse_number (int_to_string i @ rest) = Some (JNum i, rest)"
proof (cases "i < 0")
  case False
  then show ?thesis
    using parse_number_digits [OF assms, of "nat i"] by (simp add: int_to_string_def)
next
  case True
  let ?ds = "dec_digits (nat (- i))"
  have p: "?ds \<noteq> []" "list_all is_digit ?ds" "digits_value ?ds = nat (- i)"
    "hd ?ds = 48 \<longrightarrow> nat (- i) = 0"
    using dec_digits_props [of "nat (- i)"] by simp_all
  have tw: "takeWhile is_digit (?ds @ rest) = ?ds" "dropWhile is_digit (?ds @ rest) = rest"
    using takeWhile_digits [OF p(2) delim_not_digit [OF assms]] by simp_all
  have lz: "\<not> (hd ?ds = 48 \<and> 1 < length ?ds)"
    using p(4) True by auto
  have "parse_number (45 # ?ds @ rest) = Some (JNum i, rest)"
    unfolding parse_number_def Let_def
    using p(1) lz delim_not_frac [OF assms] True by (simp add: tw p(3))
  then show ?thesis
    using True by (simp add: int_to_string_def)
qed

subsection \<open>String literals\<close>

lemma dm: "(c::nat) div a mod b * a + c mod a = c mod (a * b)"
  by (simp add: mod_mult2_eq add.commute mult.commute)
lemma hex4_sum: "c div 4096 * 4096 + c div 256 mod 16 * 256 + c div 16 mod 16 * 16 + c mod 16 = (c::nat)"
proof -
  have 1: "c div 16 mod 16 * 16 + c mod 16 = c mod 256"
    using dm [of c 16 16] by simp
  have 2: "c div 256 mod 16 * 256 + c mod 256 = c mod 4096"
    using dm [of c 256 16] by simp
  have 3: "c div 4096 * 4096 + c mod 4096 = c" by simp
  from 1 2 3 show ?thesis by linarith
qed

lemma hex4_escape:
  assumes "c < 65536"
  shows "hex4 (hex_digit (c div 4096)) (hex_digit (c div 256 mod 16)) (hex_digit (c div 16 mod 16))
           (hex_digit (c mod 16)) = Some c"
proof -
  have "c div 4096 < 16" using assms by simp
  then show ?thesis
    by (simp add: hex4_def hex_value_lower hex4_sum)
qed

lemma parse_chars_unit:
  assumes "c < 256"
  shows "parse_chars (quote_unit c @ r) = cons_fst c (parse_chars r)"
proof -
  have ns: "\<not> is_surrogate c" using assms by (simp add: is_surrogate_def)
  consider "c = 8 \<or> c = 9 \<or> c = 10 \<or> c = 12 \<or> c = 13 \<or> c = 34 \<or> c = 92"
    | "c < 32" "\<not> (c = 8 \<or> c = 9 \<or> c = 10 \<or> c = 12 \<or> c = 13 \<or> c = 34 \<or> c = 92)"
    | "32 \<le> c" "c \<noteq> 34" "c \<noteq> 92"
    by linarith
  then show ?thesis
  proof cases
    case 1
    then show ?thesis
      by (auto simp: quote_unit_def unescape_def)
  next
    case 2
    then have q: "quote_unit c = unicode_escape c"
      by (simp add: quote_unit_def)
    have "c < 65536" using assms by simp
    from hex4_escape [OF this] show ?thesis
      by (simp add: q unicode_escape_def)
  next
    case 3
    then show ?thesis
      using ns by (simp add: quote_unit_def)
  qed
qed

lemma quote_units_latin1: "latin1 s \<Longrightarrow> quote_units s = concat (map quote_unit s)"
  by (induction s rule: quote_units.induct) (auto simp: latin1_def is_high_surrogate_def)

lemma parse_chars_concat:
  "latin1 s \<Longrightarrow> parse_chars (concat (map quote_unit s) @ 34 # rest) = Some (s, rest)"
proof (induction s)
  case Nil
  then show ?case by simp
next
  case (Cons c s)
  then have c: "c < 256" and s: "latin1 s" by (simp_all add: latin1_def)
  show ?case
    using Cons.IH [OF s] parse_chars_unit [OF c, of "concat (map quote_unit s) @ 34 # rest"]
    by (simp add: cons_fst_def)
qed

lemma parse_chars_quoted:
  "latin1 s \<Longrightarrow> parse_chars (quote_units s @ 34 # rest) = Some (s, rest)"
  by (simp add: quote_units_latin1 parse_chars_concat)

lemma parse_string_literal:
  "latin1 s \<Longrightarrow> quote_json_string s @ rest = 34 # quote_units s @ 34 # rest"
  by (simp add: quote_json_string_def)

subsection \<open>One step of the parser\<close>

lemma skip_ws_first: "first_ok t \<Longrightarrow> skip_ws (t @ r) = t @ r"
  by (cases t) (auto simp: first_ok_def skip_ws_def)

lemma skip_ws_delim [simp]:
  "skip_ws (44 # r) = 44 # r" "skip_ws (93 # r) = 93 # r" "skip_ws (125 # r) = 125 # r"
  "skip_ws (58 # r) = 58 # r" "skip_ws (34 # r) = 34 # r"
  by (simp_all add: skip_ws_def json_ws_def)

lemma step_null: "parse_value (Suc m) (js ''null'' @ rest) = Some (JNull, rest)"
  by (simp add: js_def skip_ws_def json_ws_def strip_prefix_def)

lemma step_true: "parse_value (Suc m) (js ''true'' @ rest) = Some (JBool True, rest)"
  by (simp add: js_def skip_ws_def json_ws_def strip_prefix_def)

lemma step_false: "parse_value (Suc m) (js ''false'' @ rest) = Some (JBool False, rest)"
  by (simp add: js_def skip_ws_def json_ws_def strip_prefix_def)

lemma dec_digits_first: "\<exists>c cs. dec_digits n = c # cs \<and> is_digit c"
  using dec_digits_props [of n] by (cases "dec_digits n") auto

lemma int_to_string_first:
  "\<exists>c cs. int_to_string i = c # cs \<and> (c = 45 \<or> is_digit c)"
proof (cases "i < 0")
  case True
  then show ?thesis by (simp add: int_to_string_def)
next
  case False
  then show ?thesis
    using dec_digits_first [of "nat i"] by (auto simp: int_to_string_def)
qed

lemma step_num:
  assumes "delim rest"
  shows "parse_value (Suc m) (int_to_string i @ rest) = Some (JNum i, rest)"
proof -
  obtain c cs where e: "int_to_string i = c # cs" and c: "c = 45 \<or> is_digit c"
    using int_to_string_first by blast
  have w: "skip_ws (c # cs @ rest) = c # cs @ rest"
    using c by (auto simp: skip_ws_def json_ws_def is_digit_def)
  have n: "c \<noteq> 123" "c \<noteq> 91" "c \<noteq> 34" "c \<noteq> 110" "c \<noteq> 116" "c \<noteq> 102"
    using c by (auto simp: is_digit_def)
  have "parse_value (Suc m) (c # cs @ rest) = parse_number (c # cs @ rest)"
    by (simp add: w n)
  then show ?thesis
    using parse_number_int [OF assms, of i] by (simp add: e)
qed

lemma step_str:
  "latin1 s \<Longrightarrow> parse_value (Suc m) (quote_json_string s @ rest) = Some (JStr s, rest)"
  by (simp add: quote_json_string_def parse_chars_quoted)

lemma step_arr_empty: "parse_value (Suc m) (91 # 93 # rest) = Some (JArr [], rest)"
  by (simp add: skip_ws_def json_ws_def)

lemma step_obj_empty: "parse_value (Suc m) (123 # 125 # rest) = Some (JObj [], rest)"
  by (simp add: skip_ws_def json_ws_def)

lemma step_arr:
  assumes "first_ok t"
  shows "parse_value (Suc m) (91 # t @ r) = parse_elems m (t @ r) []"
proof -
  obtain c cs where e: "t = c # cs" using assms by (cases t) (auto simp: first_ok_def)
  have "skip_ws (91 # t @ r) = 91 # t @ r" by (simp add: skip_ws_def json_ws_def)
  moreover have "skip_ws (t @ r) = c # cs @ r" using skip_ws_first [OF assms] e by simp
  moreover have "c \<noteq> 93" using assms e by (simp add: first_ok_def)
  ultimately show ?thesis by (simp add: e)
qed

lemma step_obj:
  assumes "first_ok t"
  shows "parse_value (Suc m) (123 # t @ r) = parse_members m (t @ r) []"
proof -
  obtain c cs where e: "t = c # cs" using assms by (cases t) (auto simp: first_ok_def)
  have "skip_ws (123 # t @ r) = 123 # t @ r" by (simp add: skip_ws_def json_ws_def)
  moreover have "skip_ws (t @ r) = c # cs @ r" using skip_ws_first [OF assms] e by simp
  moreover have "c \<noteq> 125" using assms e by (simp add: first_ok_def)
  ultimately show ?thesis by (simp add: e)
qed

lemma step_elems_last:
  "parse_value m (t @ 93 # rest) = Some (x, 93 # rest) \<Longrightarrow>
   parse_elems (Suc m) (t @ 93 # rest) acc = Some (JArr (acc @ [x]), rest)"
  by simp

lemma step_elems_more:
  "parse_value m (t @ 44 # nxt) = Some (x, 44 # nxt) \<Longrightarrow>
   parse_elems (Suc m) (t @ 44 # nxt) acc = parse_elems m nxt (acc @ [x])"
  by simp

lemma step_member_last:
  "latin1 k \<Longrightarrow> parse_value m (t @ 125 # rest) = Some (v, 125 # rest) \<Longrightarrow>
   parse_members (Suc m) (quote_json_string k @ 58 # t @ 125 # rest) acc
     = Some (JObj (obj_set acc k v), rest)"
  by (simp add: quote_json_string_def parse_chars_quoted)

lemma step_member_more:
  "latin1 k \<Longrightarrow> parse_value m (t @ 44 # nxt) = Some (v, 44 # nxt) \<Longrightarrow>
   parse_members (Suc m) (quote_json_string k @ 58 # t @ 44 # nxt) acc
     = parse_members m nxt (obj_set acc k v)"
  by (simp add: quote_json_string_def parse_chars_quoted)

lemma obj_set_new: "k \<notin> fst ` set acc \<Longrightarrow> obj_set acc k v = acc @ [(k, v)]"
  by (induction acc) auto

subsection \<open>Parsing what stringify wrote\<close>

lemma join_cons: "ts \<noteq> [] \<Longrightarrow> join_with sep (t # ts) = t @ sep # join_with sep ts"
  by (cases ts) simp_all

lemma first_ok_append: "first_ok t \<Longrightarrow> first_ok (t @ r)"
  by (cases t) (auto simp: first_ok_def)

lemma first_ok_cons: "\<not> json_ws c \<Longrightarrow> c \<noteq> 93 \<Longrightarrow> c \<noteq> 125 \<Longrightarrow> first_ok (c # cs)"
  by (simp add: first_ok_def)

lemma first_ok_int: "first_ok (int_to_string i)"
proof -
  obtain c cs where "int_to_string i = c # cs" "c = 45 \<or> is_digit c"
    using int_to_string_first by blast
  then show ?thesis
    by (auto simp: first_ok_def json_ws_def is_digit_def)
qed

lemma first_ok_quote: "first_ok (quote_json_string s @ r)"
  by (simp add: first_ok_def quote_json_string_def json_ws_def)

lemma delim_simps [simp]: "delim (44 # r)" "delim (93 # r)" "delim (125 # r)" "delim []"
  by (simp_all add: delim_def)

lemma json_ok_stringify: "json_ok v \<Longrightarrow> \<exists>t. stringify_val v = Some t"
  by (cases v) auto

lemma parse_stringified:
  "(json_ok v \<longrightarrow>
      (\<exists>t. stringify_val v = Some t \<and> first_ok t
         \<and> (\<forall>n rest. need_val v \<le> n \<longrightarrow> delim rest \<longrightarrow> parse_value n (t @ rest) = Some (v, rest))))"
  "(json_ok_elems xs \<longrightarrow> xs \<noteq> [] \<longrightarrow>
      first_ok (join_with 44 (stringify_elems xs))
      \<and> (\<forall>n rest acc. need_elems xs \<le> n \<longrightarrow>
            parse_elems n (join_with 44 (stringify_elems xs) @ 93 # rest) acc
              = Some (JArr (acc @ xs), rest)))"
  "(json_ok_members fs \<longrightarrow> fs \<noteq> [] \<longrightarrow>
      first_ok (join_with 44 (stringify_members fs))
      \<and> (\<forall>n rest acc. need_members fs \<le> n \<longrightarrow> fst ` set acc \<inter> fst ` set fs = {} \<longrightarrow>
            parse_members n (join_with 44 (stringify_members fs) @ 125 # rest) acc
              = Some (JObj (acc @ fs), rest)))"
proof (induction v and xs and fs rule: stringify_val_stringify_elems_stringify_members.induct)
  case 1
  then show ?case by simp
next
  case 2
  have "first_ok (js ''null'')" by (simp add: first_ok_def js_def json_ws_def)
  moreover have "parse_value n (js ''null'' @ rest) = Some (JNull, rest)" if "1 \<le> n" for n rest
    using that step_null by (cases n) simp_all
  ultimately show ?case by simp
next
  case (3 b)
  have "first_ok (js ''true'')" "first_ok (js ''false'')"
    by (simp_all add: first_ok_def js_def json_ws_def)
  moreover have "parse_value n (js ''true'' @ rest) = Some (JBool True, rest)"
    "parse_value n (js ''false'' @ rest) = Some (JBool False, rest)" if "1 \<le> n" for n rest
    using that step_true step_false by (cases n; simp)+
  ultimately show ?case by simp
next
  case (4 i)
  have "parse_value n (int_to_string i @ rest) = Some (JNum i, rest)"
    if "1 \<le> n" "delim rest" for n rest
    using that step_num by (cases n) simp_all
  then show ?case by (simp add: first_ok_int)
next
  case (5 s)
  have "parse_value n (quote_json_string s @ rest) = Some (JStr s, rest)"
    if "1 \<le> n" "latin1 s" for n rest
    using that step_str by (cases n) simp_all
  moreover have "first_ok (quote_json_string s)"
    using first_ok_quote [of s "[]"] by simp
  ultimately show ?case by simp
next
  case (6 xs)
  show ?case
  proof (cases "xs = []")
    case True
    have "parse_value n (91 # 93 # rest) = Some (JArr [], rest)" if "1 \<le> n" for n rest
      using that step_arr_empty by (cases n) simp_all
    then show ?thesis
      using True by (simp add: first_ok_def json_ws_def)
  next
    case False
    show ?thesis
    proof (intro impI)
      assume ok: "json_ok (JArr xs)"
      let ?b = "join_with 44 (stringify_elems xs)"
      from 6 ok False have f: "first_ok ?b"
        and p: "\<And>n rest acc. need_elems xs \<le> n \<Longrightarrow>
                  parse_elems n (?b @ 93 # rest) acc = Some (JArr (acc @ xs), rest)"
        by simp_all
      have "parse_value n ((91 # ?b @ [93]) @ rest) = Some (JArr xs, rest)"
        if "need_val (JArr xs) \<le> n" for n rest
      proof -
        from that obtain m where n: "n = Suc m" and m: "need_elems xs \<le> m"
          by (cases n) simp_all
        show ?thesis
          using step_arr [OF f, of m "93 # rest"] p [OF m, of rest "[]"] by (simp add: n)
      qed
      then show "\<exists>t. stringify_val (JArr xs) = Some t \<and> first_ok t
         \<and> (\<forall>n rest. need_val (JArr xs) \<le> n \<longrightarrow> delim rest
               \<longrightarrow> parse_value n (t @ rest) = Some (JArr xs, rest))"
        by (simp add: first_ok_def json_ws_def)
    qed
  qed
next
  case (7 fs)
  show ?case
  proof (cases "fs = []")
    case True
    have "parse_value n (123 # 125 # rest) = Some (JObj [], rest)" if "1 \<le> n" for n rest
      using that step_obj_empty by (cases n) simp_all
    then show ?thesis
      using True by (simp add: first_ok_def json_ws_def)
  next
    case False
    show ?thesis
    proof (intro impI)
      assume ok: "json_ok (JObj fs)"
      let ?b = "join_with 44 (stringify_members fs)"
      from 7 ok False have f: "first_ok ?b"
        and p: "\<And>n rest acc. need_members fs \<le> n \<Longrightarrow> fst ` set acc \<inter> fst ` set fs = {} \<Longrightarrow>
                  parse_members n (?b @ 125 # rest) acc = Some (JObj (acc @ fs), rest)"
        by simp_all
      have "parse_value n ((123 # ?b @ [125]) @ rest) = Some (JObj fs, rest)"
        if "need_val (JObj fs) \<le> n" for n rest
      proof -
        from that obtain m where n: "n = Suc m" and m: "need_members fs \<le> m"
          by (cases n) simp_all
        show ?thesis
          using step_obj [OF f, of m "125 # rest"] p [OF m, of "[]" rest] by (simp add: n)
      qed
      then show "\<exists>t. stringify_val (JObj fs) = Some t \<and> first_ok t
         \<and> (\<forall>n rest. need_val (JObj fs) \<le> n \<longrightarrow> delim rest
               \<longrightarrow> parse_value n (t @ rest) = Some (JObj fs, rest))"
        by (simp add: first_ok_def json_ws_def)
    qed
  qed
next
  case 8
  then show ?case by simp
next
  case (9 x xs)
  show ?case
  proof (intro impI)
    assume ok: "json_ok_elems (x # xs)"
    then have okx: "json_ok x" and okxs: "json_ok_elems xs" by simp_all
    from 9(1) okx obtain t where t: "stringify_val x = Some t" and ft: "first_ok t"
      and pt: "\<And>n rest. need_val x \<le> n \<Longrightarrow> delim rest \<Longrightarrow> parse_value n (t @ rest) = Some (x, rest)"
      by auto
    have se: "stringify_elems (x # xs) = t # stringify_elems xs" by (simp add: t)
    show "first_ok (join_with 44 (stringify_elems (x # xs)))
      \<and> (\<forall>n rest acc. need_elems (x # xs) \<le> n \<longrightarrow>
            parse_elems n (join_with 44 (stringify_elems (x # xs)) @ 93 # rest) acc
              = Some (JArr (acc @ x # xs), rest))"
    proof (cases "xs = []")
      case True
      have "parse_elems n (t @ 93 # rest) acc = Some (JArr (acc @ [x]), rest)"
        if "need_elems [x] \<le> n" for n rest acc
      proof -
        from that obtain m where n: "n = Suc m" and m: "need_val x \<le> m"
          by (cases n) simp_all
        show ?thesis
          using step_elems_last [OF pt [OF m, of "93 # rest"]] by (simp add: n)
      qed
      then show ?thesis using True ft by (simp add: t)
    next
      case False
      let ?b = "join_with 44 (stringify_elems xs)"
      from 9(2) okxs False have
        p: "\<And>n rest acc. need_elems xs \<le> n \<Longrightarrow>
                  parse_elems n (?b @ 93 # rest) acc = Some (JArr (acc @ xs), rest)"
        by simp
      have ne: "stringify_elems xs \<noteq> []" using False by (cases xs) simp_all
      have j: "join_with 44 (stringify_elems (x # xs)) = t @ 44 # ?b"
        by (simp add: t join_cons [OF ne])
      have "parse_elems n ((t @ 44 # ?b) @ 93 # rest) acc = Some (JArr (acc @ x # xs), rest)"
        if "need_elems (x # xs) \<le> n" for n rest acc
      proof -
        from that obtain m where n: "n = Suc m" and m: "need_val x \<le> m" "need_elems xs \<le> m"
          by (cases n) simp_all
        show ?thesis
          using step_elems_more [OF pt [OF m(1), of "44 # ?b @ 93 # rest"], of acc]
            p [OF m(2), of rest "acc @ [x]"]
          by (simp add: n)
      qed
      then show ?thesis unfolding j using ft by (simp add: first_ok_append)
    qed
  qed
next
  case 10
  then show ?case by simp
next
  case (11 k v fs)
  show ?case
  proof (intro impI)
    assume ok: "json_ok_members ((k, v) # fs)"
    then have okk: "latin1 k" and okv: "json_ok v" and new: "k \<notin> fst ` set fs"
      and okfs: "json_ok_members fs" by simp_all
    from 11(1) okv obtain t where t: "stringify_val v = Some t" and ft: "first_ok t"
      and pt: "\<And>n rest. need_val v \<le> n \<Longrightarrow> delim rest \<Longrightarrow> parse_value n (t @ rest) = Some (v, rest)"
      by auto
    let ?m = "quote_json_string k @ 58 # t"
    have se: "stringify_members ((k, v) # fs) = ?m # stringify_members fs" by (simp add: t)
    have fm: "first_ok (?m @ r)" for r
      using first_ok_quote [of k "58 # t @ r"] by simp
    show "first_ok (join_with 44 (stringify_members ((k, v) # fs)))
      \<and> (\<forall>n rest acc. need_members ((k, v) # fs) \<le> n \<longrightarrow>
            fst ` set acc \<inter> fst ` set ((k, v) # fs) = {} \<longrightarrow>
            parse_members n (join_with 44 (stringify_members ((k, v) # fs)) @ 125 # rest) acc
              = Some (JObj (acc @ (k, v) # fs), rest))"
    proof (cases "fs = []")
      case True
      have "parse_members n (?m @ 125 # rest) acc = Some (JObj (acc @ [(k, v)]), rest)"
        if "need_members [(k, v)] \<le> n" "k \<notin> fst ` set acc" for n rest acc
      proof -
        from that obtain m where n: "n = Suc m" and m: "need_val v \<le> m"
          by (cases n) simp_all
        show ?thesis
          using step_member_last [OF okk pt [OF m, of "125 # rest"], of acc] that(2)
          by (simp add: n obj_set_new)
      qed
      then show ?thesis using True fm [of "[]"] by (simp add: t)
    next
      case False
      let ?b = "join_with 44 (stringify_members fs)"
      from 11(3) [OF t] okfs False have
        p: "\<And>n rest acc. need_members fs \<le> n \<Longrightarrow> fst ` set acc \<inter> fst ` set fs = {} \<Longrightarrow>
                  parse_members n (?b @ 125 # rest) acc = Some (JObj (acc @ fs), rest)"
        by simp
      have sne: "stringify_members fs \<noteq> []"
      proof -
        obtain k' v' fs' where e: "fs = (k', v') # fs'" using False by (cases fs) auto
        with okfs have "json_ok v'" by simp
        then obtain t' where "stringify_val v' = Some t'"
          using json_ok_stringify by blast
        then show ?thesis by (simp add: e)
      qed
      have j: "join_with 44 (stringify_members ((k, v) # fs)) = ?m @ 44 # ?b"
        by (simp add: t join_cons [OF sne])
      have "parse_members n ((?m @ 44 # ?b) @ 125 # rest) acc = Some (JObj (acc @ (k, v) # fs), rest)"
        if "need_members ((k, v) # fs) \<le> n" "fst ` set acc \<inter> fst ` set ((k, v) # fs) = {}"
        for n rest acc
      proof -
        from that obtain m where n: "n = Suc m" and m: "need_val v \<le> m" "need_members fs \<le> m"
          by (cases n) simp_all
        from that(2) have ka: "k \<notin> fst ` set acc" and d: "fst ` set acc \<inter> fst ` set fs = {}"
          by auto
        have d': "fst ` set (acc @ [(k, v)]) \<inter> fst ` set fs = {}"
          using d new by auto
        show ?thesis
          using step_member_more [OF okk pt [OF m(1), of "44 # ?b @ 125 # rest"], of acc]
            p [OF m(2) d', of rest]
          by (simp add: n obj_set_new [OF ka])
      qed
      then show ?thesis unfolding j using fm [of "44 # ?b"] by simp
    qed
  qed
qed

lemma latin1_append [simp]: "latin1 (a @ b) = (latin1 a \<and> latin1 b)"
  by (simp add: latin1_def)

lemma latin1_cons [simp]: "latin1 (c # s) = (c < 256 \<and> latin1 s)"
  by (simp add: latin1_def)

lemma latin1_nil [simp]: "latin1 []"
  by (simp add: latin1_def)

lemma latin1_digits: "list_all is_digit ds \<Longrightarrow> latin1 ds"
  by (induction ds) (auto simp: is_digit_def)

lemma latin1_int: "latin1 (int_to_string i)"
  using dec_digits_props by (simp add: int_to_string_def latin1_digits)

lemma hex_digit_small: "d < 16 \<Longrightarrow> hex_digit d < 256"
  by (simp add: hex_digit_def)

lemma latin1_quote_unit: "c < 256 \<Longrightarrow> latin1 (quote_unit c)"
  by (simp add: quote_unit_def unicode_escape_def hex_digit_small)

lemma latin1_quote_units: "latin1 s \<Longrightarrow> latin1 (concat (map quote_unit s))"
  by (induction s) (simp_all add: latin1_quote_unit)

lemma latin1_quoted: "latin1 s \<Longrightarrow> latin1 (quote_json_string s)"
  by (simp add: quote_json_string_def quote_units_latin1 latin1_quote_units)

lemma quoted_length: "2 \<le> length (quote_json_string s)"
  by (simp add: quote_json_string_def)

lemma int_to_string_length: "1 \<le> length (int_to_string i)"
  using int_to_string_first [of i] by auto

lemma stringified_size:
  "(json_ok v \<longrightarrow> (\<forall>t. stringify_val v = Some t \<longrightarrow> latin1 t \<and> need_val v \<le> length t))"
  "(json_ok_elems xs \<longrightarrow>
      latin1 (join_with 44 (stringify_elems xs))
      \<and> need_elems xs \<le> Suc (length (join_with 44 (stringify_elems xs))))"
  "(json_ok_members fs \<longrightarrow>
      latin1 (join_with 44 (stringify_members fs))
      \<and> need_members fs \<le> Suc (length (join_with 44 (stringify_members fs))))"
proof (induction v and xs and fs rule: stringify_val_stringify_elems_stringify_members.induct)
  case 1
  then show ?case by simp
next
  case 2
  then show ?case by (simp add: js_def)
next
  case (3 b)
  then show ?case by (simp add: js_def)
next
  case (4 n)
  then show ?case using int_to_string_length [of n] by (simp add: latin1_int)
next
  case (5 s)
  then show ?case using quoted_length [of s] by (simp add: latin1_quoted)
next
  case (6 xs)
  then show ?case by simp
next
  case (7 fs)
  then show ?case by simp
next
  case 8
  then show ?case by simp
next
  case (9 x xs)
  show ?case
  proof (intro impI)
    assume ok: "json_ok_elems (x # xs)"
    then obtain t where t: "stringify_val x = Some t"
      using json_ok_stringify [of x] by auto
    with 9(1) ok have lt: "latin1 t" "need_val x \<le> length t" by simp_all
    from 9(2) ok have ih: "latin1 (join_with 44 (stringify_elems xs))"
      "need_elems xs \<le> Suc (length (join_with 44 (stringify_elems xs)))" by simp_all
    show "latin1 (join_with 44 (stringify_elems (x # xs)))
      \<and> need_elems (x # xs) \<le> Suc (length (join_with 44 (stringify_elems (x # xs))))"
    proof (cases "stringify_elems xs = []")
      case True
      then have "xs = []" by (cases xs) simp_all
      with lt show ?thesis by (simp add: t)
    next
      case False
      have "stringify_elems (x # xs) = t # stringify_elems xs" by (simp add: t)
      then have j: "join_with 44 (stringify_elems (x # xs)) = t @ 44 # join_with 44 (stringify_elems xs)"
        using join_cons [OF False] by simp
      show ?thesis unfolding j using lt ih by simp
    qed
  qed
next
  case 10
  then show ?case by simp
next
  case (11 k v fs)
  show ?case
  proof (intro impI)
    assume ok: "json_ok_members ((k, v) # fs)"
    then obtain t where t: "stringify_val v = Some t"
      using json_ok_stringify [of v] by auto
    with 11(1) ok have lt: "latin1 t" "need_val v \<le> length t" by simp_all
    from 11(3) [OF t] ok have ih: "latin1 (join_with 44 (stringify_members fs))"
      "need_members fs \<le> Suc (length (join_with 44 (stringify_members fs)))" by simp_all
    from ok have lk: "latin1 (quote_json_string k)" by (simp add: latin1_quoted)
    let ?m = "quote_json_string k @ 58 # t"
    have se: "stringify_members ((k, v) # fs) = ?m # stringify_members fs" by (simp add: t)
    show "latin1 (join_with 44 (stringify_members ((k, v) # fs)))
      \<and> need_members ((k, v) # fs) \<le> Suc (length (join_with 44 (stringify_members ((k, v) # fs))))"
    proof (cases "stringify_members fs = []")
      case True
      then have "fs = [] \<or> need_members fs \<le> 1" using ih by simp
      have nm: "need_members fs \<le> 1" using ih True by simp
      have "join_with 44 (stringify_members ((k, v) # fs)) = ?m" unfolding se using True by simp
      then show ?thesis using lt lk nm quoted_length [of k] by simp
    next
      case False
      have j: "join_with 44 (stringify_members ((k, v) # fs)) = ?m @ 44 # join_with 44 (stringify_members fs)"
        unfolding se using join_cons [OF False] by simp
      show ?thesis unfolding j using lt ih lk by simp
    qed
  qed
qed

lemma json_roundtrip:
  assumes "json_ok v"
  shows "\<exists>t. stringify_val v = Some t \<and> latin1 t \<and> json_parse t = Some v"
proof -
  from parse_stringified(1) [of v] assms obtain t where t: "stringify_val v = Some t"
    and p: "\<And>n rest. need_val v \<le> n \<Longrightarrow> delim rest \<Longrightarrow> parse_value n (t @ rest) = Some (v, rest)"
    by auto
  from stringified_size(1) [of v] assms t have l: "latin1 t" and n: "need_val v \<le> length t"
    by simp_all
  have "need_val v \<le> 2 * length t + 1" using n by simp
  from p [OF this, of "[]"] have "parse_value (2 * length t + 1) t = Some (v, [])" by simp
  then have "json_parse t = Some v"
    by (simp add: json_parse_def skip_ws_def)
  with t l show ?thesis by simp
qed

lemma latin1_mod: "latin1 t \<Longrightarrow> map (\<lambda>c. c mod 256) t = t"
  by (induction t) simp_all

subsection \<open>The parser never runs out of calls\<close>

text \<open>
  Every call of the parser consumes input, and a bound above twice the length of the text
  is never reached: \<open>json_parse\<close> fails only where the text is not JSON (or has a
  number that is not an integer).
\<close>

lemma skip_ws_length: "length (skip_ws s) \<le> length s"
  by (simp add: skip_ws_def length_dropWhile_le)

lemma skip_ws_cons_length: "skip_ws s = c # cs \<Longrightarrow> length cs < length s"
  using skip_ws_length [of s] by simp

lemma cons_fst_rest: "cons_fst c x = Some (str, r) \<Longrightarrow> \<exists>str'. x = Some (str', r)"
  by (cases x) (auto simp: cons_fst_def)

lemma parse_chars_shorter: "parse_chars s = Some (str, r) \<Longrightarrow> length r < length s"
proof (induction "length s" arbitrary: s str rule: less_induct)
  case less
  show ?case
  proof (cases s)
    case Nil
    with less.prems show ?thesis by simp
  next
    case (Cons c cs)
    with less.prems have
      "(c = 34 \<and> r = cs) \<or> (\<exists>s' str'. parse_chars s' = Some (str', r) \<and> length s' < length s)"
      by (auto split: if_splits list.splits option.splits dest!: cons_fst_rest)
    then show ?thesis
    proof
      assume "c = 34 \<and> r = cs"
      with Cons show ?thesis by simp
    next
      assume "\<exists>s' str'. parse_chars s' = Some (str', r) \<and> length s' < length s"
      then obtain s' str' where s': "parse_chars s' = Some (str', r)" "length s' < length s"
        by blast
      from less.hyps [OF s'(2) s'(1)] s'(2) show ?thesis by simp
    qed
  qed
qed

lemma parse_number_shorter: "parse_number s = Some (v, r) \<Longrightarrow> length r < length s"
proof -
  assume a: "parse_number s = Some (v, r)"
  let ?t = "if s \<noteq> [] \<and> hd s = 45 then tl s else s"
  from a have ne: "takeWhile is_digit ?t \<noteq> []" and r: "r = dropWhile is_digit ?t"
    by (auto simp: parse_number_def Let_def split: if_splits)
  have "length (takeWhile is_digit ?t) + length (dropWhile is_digit ?t) = length ?t"
    by (metis length_append takeWhile_dropWhile_id)
  with ne have "length (dropWhile is_digit ?t) < length ?t"
    by (cases "takeWhile is_digit ?t") auto
  moreover have "length ?t \<le> length s" by simp
  ultimately show ?thesis using r by simp
qed

lemma strip_prefix_shorter: "p \<noteq> [] \<Longrightarrow> strip_prefix p s = Some r \<Longrightarrow> length r < length s"
  by (cases p; cases s) (auto simp: strip_prefix_def split: if_splits)


lemma parse_shorter:
  "parse_value n s = Some (v, r) \<Longrightarrow> length r < length s"
  "parse_elems n s acc = Some (v, r) \<Longrightarrow> length r < length s"
  "parse_members n s acc' = Some (v, r) \<Longrightarrow> length r < length s"
proof (induction n s and n s acc and n s acc' arbitrary: v r and v r and v r
    rule: parse_value_parse_elems_parse_members.induct)
  case (1 s)
  then show ?case by simp
next
  case (2 n s)
  from 2(3) obtain c cs where e: "skip_ws s = c # cs"
    by (cases "skip_ws s") auto
  note l = skip_ws_cons_length [OF e]
  have w: "length (c # cs) \<le> length s"
    using skip_ws_length [of s] e by simp
  consider (obj) "c = 123" | (arr) "c = 91" "c \<noteq> 123" | (str) "c = 34" "c \<noteq> 123" "c \<noteq> 91"
    | (lit) "c = 110 \<or> c = 116 \<or> c = 102" "c \<noteq> 123" "c \<noteq> 91" "c \<noteq> 34"
    | (num) "c \<noteq> 123" "c \<noteq> 91" "c \<noteq> 34" "c \<noteq> 110" "c \<noteq> 116" "c \<noteq> 102"
    by blast
  then show ?case
  proof cases
    case obj
    from 2(3) e obj obtain d r0 where d: "skip_ws cs = d # r0"
      by (cases "skip_ws cs") auto
    show ?thesis
    proof (cases "d = 125")
      case True
      with 2(3) e obj d have "r = r0" by simp
      with skip_ws_cons_length [OF d] l show ?thesis by simp
    next
      case False
      with 2(3) e obj d have "parse_members n cs [] = Some (v, r)" by simp
      from 2(1) [OF e obj d False this] l show ?thesis by simp
    qed
  next
    case arr
    from 2(3) e arr obtain d r0 where d: "skip_ws cs = d # r0"
      by (cases "skip_ws cs") auto
    show ?thesis
    proof (cases "d = 93")
      case True
      with 2(3) e arr d have "r = r0" by simp
      with skip_ws_cons_length [OF d] l show ?thesis by simp
    next
      case False
      with 2(3) e arr d have "parse_elems n cs [] = Some (v, r)" by simp
      from 2(2) [OF e arr(2) arr(1) d False this] l show ?thesis by simp
    qed
  next
    case str
    with 2(3) e obtain st where "parse_chars cs = Some (st, r)"
      by (auto split: option.splits)
    from parse_chars_shorter [OF this] l show ?thesis by simp
  next
    case lit
    with 2(3) e have "\<exists>p. p \<noteq> [] \<and> strip_prefix p (c # cs) = Some r"
      by (auto simp: js_def)
    then obtain p where "p \<noteq> []" "strip_prefix p (c # cs) = Some r" by blast
    from strip_prefix_shorter [OF this] w show ?thesis by simp
  next
    case num
    with 2(3) e have "parse_number (c # cs) = Some (v, r)" by simp
    from parse_number_shorter [OF this] w show ?thesis by simp
  qed
next
  case (3 s acc)
  then show ?case by simp
next
  case (4 n s acc)
  from 4(3) obtain x r1 where x: "parse_value n s = Some (x, r1)"
    by (cases "parse_value n s") auto
  from 4(1) [OF x] have l1: "length r1 < length s" .
  from 4(3) x obtain d r' where d: "skip_ws r1 = d # r'"
    by (cases "skip_ws r1") auto
  note l2 = skip_ws_cons_length [OF d]
  show ?case
  proof (cases "d = 44")
    case True
    with 4(3) x d have "parse_elems n r' (acc @ [x]) = Some (v, r)" by simp
    from 4(2) [OF x refl d True this] l1 l2 show ?thesis by simp
  next
    case False
    with 4(3) x d have "r = r'" by (auto split: if_splits)
    with l1 l2 show ?thesis by simp
  qed
next
  case (5 s acc')
  then show ?case by simp
next
  case (6 n s acc')
  from 6(3) obtain q cs where q: "skip_ws s = q # cs"
    by (cases "skip_ws s") auto
  from 6(3) q have q34: "\<not> q \<noteq> 34" by (auto split: if_splits)
  from 6(3) q q34 obtain k r0 where k: "parse_chars cs = Some (k, r0)"
    by (cases "parse_chars cs") auto
  from 6(3) q q34 k obtain col r1 where c: "skip_ws r0 = col # r1"
    by (cases "skip_ws r0") auto
  from 6(3) q q34 k c have c58: "\<not> col \<noteq> 58" by (auto split: if_splits)
  from 6(3) q q34 k c c58 obtain x r2 where x: "parse_value n r1 = Some (x, r2)"
    by (cases "parse_value n r1") auto
  from 6(3) q q34 k c c58 x obtain d r3 where d: "skip_ws r2 = d # r3"
    by (cases "skip_ws r2") auto
  have l: "length r3 < length s"
    using skip_ws_cons_length [OF q] parse_chars_shorter [OF k] skip_ws_cons_length [OF c]
      6(1) [OF q q34 k refl c c58 x] skip_ws_cons_length [OF d]
    by simp
  show ?case
  proof (cases "d = 44")
    case True
    with 6(3) q q34 k c c58 x d have "parse_members n r3 (obj_set acc' k x) = Some (v, r)"
      by simp
    from 6(2) [OF q q34 k refl c c58 x refl d True this] l show ?thesis by simp
  next
    case False
    with 6(3) q q34 k c c58 x d have "r = r3" by (auto split: if_splits)
    with l show ?thesis by simp
  qed
qed


lemma parse_value_step:
  assumes "\<And>c cs. skip_ws s = c # cs \<Longrightarrow> parse_elems m cs [] = parse_elems m' cs []"
    and "\<And>c cs. skip_ws s = c # cs \<Longrightarrow> parse_members m cs [] = parse_members m' cs []"
  shows "parse_value (Suc m) s = parse_value (Suc m') s"
  using assms by (cases "skip_ws s") (simp_all split: list.splits)

lemma parse_elems_step:
  assumes "parse_value m s = parse_value m' s"
    and "\<And>x r1 d r'. parse_value m' s = Some (x, r1) \<Longrightarrow> skip_ws r1 = d # r' \<Longrightarrow>
           parse_elems m r' (acc @ [x]) = parse_elems m' r' (acc @ [x])"
  shows "parse_elems (Suc m) s acc = parse_elems (Suc m') s acc"
  using assms by (auto split: option.splits list.splits)

lemma parse_members_step:
  assumes "\<And>q cs k r0 col r1. skip_ws s = q # cs \<Longrightarrow> parse_chars cs = Some (k, r0) \<Longrightarrow>
           skip_ws r0 = col # r1 \<Longrightarrow> parse_value m r1 = parse_value m' r1"
    and "\<And>q cs k r0 col r1 x r2 d r3. skip_ws s = q # cs \<Longrightarrow> parse_chars cs = Some (k, r0) \<Longrightarrow>
           skip_ws r0 = col # r1 \<Longrightarrow> parse_value m' r1 = Some (x, r2) \<Longrightarrow> skip_ws r2 = d # r3 \<Longrightarrow>
           parse_members m r3 (obj_set acc k x) = parse_members m' r3 (obj_set acc k x)"
  shows "parse_members (Suc m) s acc = parse_members (Suc m') s acc"
proof (cases "skip_ws s")
  case Nil
  then show ?thesis by simp
next
  case q: (Cons q cs)
  show ?thesis
  proof (cases "parse_chars cs")
    case None
    then show ?thesis using q by simp
  next
    case (Some p)
    obtain k r0 where p: "p = (k, r0)" by (cases p)
    show ?thesis
    proof (cases "skip_ws r0")
      case Nil
      then show ?thesis using q Some p by simp
    next
      case c: (Cons col r1)
      from assms(1) [OF q _ c] Some p have v: "parse_value m r1 = parse_value m' r1" by simp
      show ?thesis
      proof (cases "parse_value m' r1")
        case None
        then show ?thesis using q Some p c v by simp
      next
        case x: (Some px)
        obtain x r2 where px: "px = (x, r2)" by (cases px)
        show ?thesis
        proof (cases "skip_ws r2")
          case Nil
          then show ?thesis using q Some p c v x px by simp
        next
          case d: (Cons d r3)
          from assms(2) [OF q _ c _ d] Some p x px
          have "parse_members m r3 (obj_set acc k x) = parse_members m' r3 (obj_set acc k x)"
            by simp
          then show ?thesis using q Some p c v x px d by simp
        qed
      qed
    qed
  qed
qed

lemma parse_stable:
  "(\<forall>s. 2 * length s < n \<longrightarrow> parse_value (Suc n) s = parse_value n s)
   \<and> (\<forall>s acc. 2 * length s + 1 < n \<longrightarrow> parse_elems (Suc n) s acc = parse_elems n s acc)
   \<and> (\<forall>s acc. 2 * length s + 1 < n \<longrightarrow> parse_members (Suc n) s acc = parse_members n s acc)"
proof (induction n)
  case 0
  then show ?case by simp
next
  case (Suc n)
  then have ihv: "\<And>s. 2 * length s < n \<Longrightarrow> parse_value (Suc n) s = parse_value n s"
    and ihe: "\<And>s acc. 2 * length s + 1 < n \<Longrightarrow> parse_elems (Suc n) s acc = parse_elems n s acc"
    and ihm: "\<And>s acc. 2 * length s + 1 < n \<Longrightarrow> parse_members (Suc n) s acc = parse_members n s acc"
    by simp_all
  have pv: "parse_value (Suc (Suc n)) s = parse_value (Suc n) s" if "2 * length s < Suc n" for s
  proof (rule parse_value_step)
    fix c cs
    assume "skip_ws s = c # cs"
    then have "length cs < length s" by (rule skip_ws_cons_length)
    with that have l: "2 * length cs + 1 < n" by simp
    from ihe [OF l] show "parse_elems (Suc n) cs [] = parse_elems n cs []" .
    from ihm [OF l] show "parse_members (Suc n) cs [] = parse_members n cs []" .
  qed
  have pe: "parse_elems (Suc (Suc n)) s acc = parse_elems (Suc n) s acc"
    if "2 * length s + 1 < Suc n" for s acc
  proof (rule parse_elems_step)
    from that show "parse_value (Suc n) s = parse_value n s" using ihv by simp
  next
    fix x r1 d r'
    assume "parse_value n s = Some (x, r1)" "skip_ws r1 = d # r'"
    then have "length r1 < length s" "length r' < length r1"
      using parse_shorter(1) skip_ws_cons_length by blast+
    with that have "2 * length r' + 1 < n" by simp
    from ihe [OF this] show "parse_elems (Suc n) r' (acc @ [x]) = parse_elems n r' (acc @ [x])" .
  qed
  have pm: "parse_members (Suc (Suc n)) s acc = parse_members (Suc n) s acc"
    if "2 * length s + 1 < Suc n" for s acc
  proof (rule parse_members_step)
    fix q cs k r0 col r1
    assume a: "skip_ws s = q # cs" "parse_chars cs = Some (k, r0)" "skip_ws r0 = col # r1"
    then have l: "length cs < length s" "length r0 < length cs" "length r1 < length r0"
      using skip_ws_cons_length parse_chars_shorter by blast+
    with that have "2 * length r1 < n" by simp
    from ihv [OF this] show "parse_value (Suc n) r1 = parse_value n r1" .
    fix x r2 d r3
    assume "parse_value n r1 = Some (x, r2)" "skip_ws r2 = d # r3"
    then have "length r2 < length r1" "length r3 < length r2"
      using parse_shorter(1) skip_ws_cons_length by blast+
    with l that have "2 * length r3 + 1 < n" by simp
    from ihm [OF this]
    show "parse_members (Suc n) r3 (obj_set acc k x) = parse_members n r3 (obj_set acc k x)" .
  qed
  from pv pe pm show ?case by blast
qed

lemma parse_value_fuel:
  "2 * length s < n \<Longrightarrow> parse_value n s = parse_value (2 * length s + 1) s"
proof (induction n)
  case 0
  then show ?case by simp
next
  case (Suc n)
  show ?case
  proof (cases "2 * length s < n")
    case True
    with Suc.IH parse_stable [of n] show ?thesis by simp
  next
    case False
    with Suc.prems have "Suc n = 2 * length s + 1" by simp
    then show ?thesis by simp
  qed
qed

section \<open>The control flow of validate and verify\<close>

lemma decode_uri:
  "decode token = Is d \<Longrightarrow>
   \<exists>t. decodeURIComponent token = Some t \<and> 3 \<le> length (split_on 46 t)
       \<and> sign d = split_on 46 t ! 2"
  by (auto simp: decode_def decode_try_def catch_log_def Let_def
      split: if_splits option.splits sum.splits)

lemma validate_cases:
  "validate now token key =
     (case decode token of
        IsFalse \<Rightarrow> \<lparr>success = False, message = msg_corrupted\<rparr>
      | Is d \<Rightarrow>
          (case get_prop (body d) (js ''exp'') of
             Inl err \<Rightarrow> \<lparr>success = False, message = msg_error\<rparr>
           | Inr exp \<Rightarrow>
               if js_lt exp now then \<lparr>success = True, message = msg_expired\<rparr>
               else if sign d \<noteq> base64_encode (hmac_sha512 key (signed_part token))
               then \<lparr>success = False, message = msg_invalid\<rparr>
               else \<lparr>success = True, message = msg_valid\<rparr>))"
proof (cases "decode token")
  case IsFalse
  then show ?thesis by (simp add: validate_def validate_try_def catch_log_def)
next
  case (Is d)
  then obtain tx where "decodeURIComponent token = Some tx"
    using decode_uri by blast
  with Is show ?thesis
    by (simp add: validate_def validate_try_def catch_log_def signed_part_def Let_def
        split: sum.splits)
qed

lemma messages_differ:
  "msg_error \<noteq> msg_corrupted" "msg_error \<noteq> msg_expired"
  "msg_error \<noteq> msg_invalid" "msg_error \<noteq> msg_valid"
  by (simp_all add: msg_error_def msg_corrupted_def msg_expired_def msg_invalid_def
      msg_valid_def)

lemma decode_null_body_token:
  "decode null_body_token = Is \<lparr>header = JObj [], body = JNull, sign = js ''x''\<rparr>"
  by code_simp

lemma decode_expired_token: "decode expired_token = Is expired_token_body"
  by code_simp

lemma expired_token_exp: "get_prop (body expired_token_body) (js ''exp'') = Inr (JNum 1)"
  by code_simp

lemma get_prop_total: "get_prop v k = Inr x \<Longrightarrow> \<exists>y. get_prop v k' = Inr y"
  by (cases v) (auto simp: get_prop_def)

lemma get_prop_error: "get_prop v k = Inl err \<Longrightarrow> is_nullish v"
  by (cases v) (auto simp: get_prop_def is_nullish_def)

lemma for_in_user:
  "\<not> is_nullish adata \<Longrightarrow>
   for_in_returns keys (differs_from_user adata user) =
     Inr (\<not> list_all (\<lambda>key. loose_eq (prop_value adata key) (obj_get user key)) keys)"
proof (induction keys)
  case Nil
  then show ?case by simp
next
  case (Cons key keys)
  from Cons.prems obtain v where "get_prop adata key = Inr v"
    by (cases adata) (auto simp: get_prop_def is_nullish_def)
  with Cons show ?case
    by (simp add: differs_from_user_def prop_value_def)
qed

lemma enum_keys_nullish: "is_nullish adata \<Longrightarrow> enum_keys adata = []"
  by (auto simp: is_nullish_def enum_keys_def)

lemma for_in_user_matches:
  "for_in_returns (enum_keys adata) (differs_from_user adata user)
     = Inr (\<not> data_matches adata user)"
proof (cases "is_nullish adata")
  case True
  then show ?thesis by (simp add: enum_keys_nullish data_matches_def)
next
  case False
  then show ?thesis by (simp add: for_in_user data_matches_def)
qed

lemma verify_access_path:
  assumes "decode atoken = Is d"
    and "has_capability user"
    and "get_prop (body d) (js ''data'') = Inr adata"
    and "data_matches adata user"
    and "success (validate now1 atoken akey)"
  shows "verify now1 now2 user akey atoken rkey rtoken"
  using assms
  by (simp add: verify_def verify_try_def catch_log_def has_capability_def for_in_user_matches)

lemma verify_after_validate:
  assumes "has_capability user"
    and "decode atoken = Is d"
    and "data_matches (prop_value (body d) (js ''data'')) user"
    and "success (validate now1 atoken akey)"
  shows "verify now1 now2 user akey atoken rkey rtoken"
proof -
  have "\<forall>err. get_prop (body d) (js ''exp'') \<noteq> Inl err"
  proof (intro allI notI)
    fix err
    assume "get_prop (body d) (js ''exp'') = Inl err"
    with assms(2) have "validate now1 atoken akey = \<lparr>success = False, message = msg_error\<rparr>"
      by (simp add: validate_cases)
    with assms(4) show False by simp
  qed
  then obtain e where "get_prop (body d) (js ''exp'') = Inr e"
    by (cases "get_prop (body d) (js ''exp'')") auto
  then obtain adata where a: "get_prop (body d) (js ''data'') = Inr adata"
    using get_prop_total by blast
  then have "prop_value (body d) (js ''data'') = adata"
    by (simp add: prop_value_def)
  with assms a show ?thesis
    by (auto intro: verify_access_path)
qed

text \<open>
  C2. When the identity has the three properties, the access token decodes, every key of
  its \<open>data\<close> matches the identity, and \<open>validate\<close> of the access token reports
  success (valid or expired), \<open>verify\<close> returns true, whatever the refresh key and the
  refresh token are.
\<close>

theorem verify_accepts_successful_validation:
  assumes "has_capability user"
    and "decode atoken = Is d"
    and "data_matches (prop_value (body d) (js ''data'')) user"
    and "success (validate now1 atoken akey)"
  shows "verify now1 now2 user akey atoken rkey rtoken"
  using assms by (rule verify_after_validate)

text \<open>
  C5. \<open>validate\<close> tests the expiry before the signature: a token that decodes and
  whose \<open>exp\<close> is less than the current time is reported expired with success under
  every key; \<open>verify\<close> then returns true for it under every key when the capability and
  identity-binding checks pass.
\<close>

theorem expired_before_signature:
  assumes "decode token = Is d"
    and "get_prop (body d) (js ''exp'') = Inr exp"
    and "js_lt exp now"
  shows "validate now token key = \<lparr>success = True, message = msg_expired\<rparr>
     \<and> (has_capability user \<and> data_matches (prop_value (body d) (js ''data'')) user
          \<longrightarrow> verify now now2 user akey token rkey rtoken)"
proof -
  have v: "\<And>k. validate now token k = \<lparr>success = True, message = msg_expired\<rparr>"
    using assms by (simp add: validate_cases)
  then have "success (validate now token akey)" by simp
  with assms(1) v show ?thesis
    by (auto intro: verify_after_validate)
qed

theorem expired_before_signature_witness:
  "validate 5 expired_token (js ''not the key'') = \<lparr>success = True, message = msg_expired\<rparr>
   \<and> verify 5 6 scenario_identity (js ''not the key'') expired_token None None"
proof -
  have "js_lt (JNum 1) 5" by (simp add: js_lt_def to_number_def)
  moreover have "has_capability scenario_identity" by code_simp
  moreover have "data_matches (prop_value (body expired_token_body) (js ''data'')) scenario_identity"
    by code_simp
  ultimately show ?thesis
    using expired_before_signature [OF decode_expired_token expired_token_exp,
        of 5 "js ''not the key''" scenario_identity 6 "js ''not the key''" None None]
    by simp
qed

text \<open>
  C6. An identity that lacks one of the own properties \<open>userId\<close>, \<open>userKey\<close>,
  \<open>userRkey\<close> is refused by \<open>verify\<close>, whatever the tokens and keys are.
\<close>

theorem verify_needs_capability:
  "\<not> has_capability user \<Longrightarrow> \<not> verify now1 now2 user akey atoken rkey rtoken"
  by (auto simp: verify_def verify_try_def catch_log_def has_capability_def
      split: or_false.splits)

theorem verify_needs_capability_witness:
  "\<not> has_capability partial_identity
   \<and> \<not> verify 5 6 partial_identity (js ''k1'') expired_token None None"
proof -
  have "\<not> has_capability partial_identity" by code_simp
  then show ?thesis
    using verify_needs_capability [of partial_identity 5 6 "js ''k1''" expired_token None None]
    by simp
qed

section \<open>CSRF tokens\<close>



section \<open>generate and the heap\<close>

text \<open>
  C9. \<open>generate\<close> leaves every object that existed before the call as it was, the
  identity among them: the only assignment, to \<open>data.exp\<close>, writes the object the
  method allocated itself.
\<close>

theorem generate_keeps_heap:
  "a < length h \<Longrightarrow> snd (generate CONFIG now h user akey rkey) ! a = h ! a"
  by (auto simp: generate_def generate_try_def alloc_def set_exp_def Let_def nth_append
      split: option.splits or_false.splits cell.splits prod.splits if_splits)

theorem generate_keeps_heap_witness:
  "snd (generate (Some scenario_config) 1000 [Plain scenario_identity] 0 (js ''k1'') (js ''k2'')) ! 0
     = Plain scenario_identity"
  using generate_keeps_heap [of 0 "[Plain scenario_identity]" "Some scenario_config" 1000 0
      "js ''k1''" "js ''k2''"]
  by simp

section \<open>Failures\<close>




section \<open>Tokens made by encode and generate\<close>

lemma b64_text_ascii: "b64_text s \<Longrightarrow> ascii s"
  by (induction s) (auto simp: b64_text_def ascii_def)

lemma b64_text_no_dot: "b64_text s \<Longrightarrow> 46 \<notin> set s"
  by (induction s) (auto simp: b64_text_def)

lemma ascii_append [simp]: "ascii (a @ b) = (ascii a \<and> ascii b)"
  by (simp add: ascii_def)

lemma ascii_cons [simp]: "ascii (c # s) = (c < 128 \<and> ascii s)"
  by (simp add: ascii_def)

lemma ascii_nil [simp]: "ascii []"
  by (simp add: ascii_def)

lemma b64_text_nil: "b64_text []"
  by (simp add: b64_text_def)

lemma b64_json_text: "b64_text (b64_json v)"
  by (cases "stringify_val v") (simp_all add: b64_json_def btoa_def base64_encode_text b64_text_nil)

lemma signature_text: "b64_text (signature key data)"
  by (simp add: signature_def base64_encode_text)

lemma btoa_b64_json: "stringify_val v = Some p \<Longrightarrow> btoa (stringify_val v) = Inr (b64_json v)"
  by (simp add: b64_json_def btoa_def)

lemma encode_wire:
  assumes "key \<noteq> []" and "stringify_val data = Some p"
  shows "encode data key
    = Is (wire (b64_json token_header @ 46 # b64_json data @ 46 # signature key data))"
proof -
  have h: "btoa (stringify_val token_header) = Inr (b64_json token_header)"
    by (rule btoa_b64_json) (simp add: token_header_def)
  have d: "btoa (stringify_val data) = Inr (b64_json data)"
    using assms(2) by (rule btoa_b64_json)
  let ?res = "b64_json token_header @ 46 # b64_json data @ 46 # signature key data"
  have "ascii ?res"
    by (simp add: b64_text_ascii b64_json_text signature_text)
  then have "encodeURIComponent ?res = Some (wire ?res)"
    by (simp add: encodeURIComponent_ascii wire_def)
  then show ?thesis
    using assms(1) by (simp add: encode_def encode_try_def catch_log_def h d signature_def)
qed

lemma decodeURIComponent_wire: "ascii s \<Longrightarrow> decodeURIComponent (wire s) = Some s"
  using decodeURIComponent_encoded [of s "[]"]
  by (simp add: wire_def decodeURIComponent_def)

lemma decode_segments:
  assumes "decodeURIComponent token = Some (a @ 46 # b @ 46 # c)"
    and "46 \<notin> set a" "46 \<notin> set b" "46 \<notin> set c"
  shows "decode token =
     (case json_parse (atob a) of
        None \<Rightarrow> IsFalse
      | Some h \<Rightarrow>
          (case json_parse (atob b) of
             None \<Rightarrow> IsFalse
           | Some bd \<Rightarrow> Is \<lparr>header = h, body = bd, sign = c\<rparr>))"
proof -
  have "token \<noteq> []"
  proof
    assume "token = []"
    then have "decodeURIComponent token = Some []" by (simp add: decodeURIComponent_def)
    with assms(1) show False by simp
  qed
  moreover have "split_on 46 (a @ 46 # b @ 46 # c) = [a, b, c]"
    using split_three [OF assms(2-4)] by simp
  ultimately show ?thesis
    using assms(1)
    by (simp add: decode_def decode_try_def catch_log_def split: option.splits)
qed

lemma signed_part_segments:
  assumes "decodeURIComponent token = Some (a @ 46 # b @ 46 # c)"
    and "46 \<notin> set a" "46 \<notin> set b" "46 \<notin> set c"
  shows "signed_part token = a @ 46 # b"
proof -
  have "split_on 46 (a @ 46 # b @ 46 # c) = [a, b, c]"
    using split_three [OF assms(2-4)] by simp
  then show ?thesis
    using assms(1) by (simp add: signed_part_def segment_text_def)
qed

lemma token_header_ok: "json_ok token_header"
  by (simp add: token_header_def js_def latin1_def)

lemma atob_b64_json:
  "stringify_val v = Some p \<Longrightarrow> atob (b64_json v) = map (\<lambda>c. c mod 256) p"
proof -
  assume "stringify_val v = Some p"
  then have "btoa (Some p) = Inr (b64_json v)"
    using btoa_b64_json [of v p] by simp
  then show ?thesis by (rule atob_btoa)
qed

lemma parse_header_segment: "json_parse (atob (b64_json token_header)) = Some token_header"
proof -
  obtain t where t: "stringify_val token_header = Some t" "latin1 t"
    "json_parse t = Some token_header"
    using json_roundtrip [OF token_header_ok] by blast
  then show ?thesis
    by (simp add: atob_b64_json latin1_mod)
qed

lemma decode_wire:
  assumes "stringify_val data = Some p" and "b64_text c"
  shows "decode (wire (b64_json token_header @ 46 # b64_json data @ 46 # c)) =
     (case json_parse (map (\<lambda>c. c mod 256) p) of
        None \<Rightarrow> IsFalse
      | Some bd \<Rightarrow> Is \<lparr>header = token_header, body = bd, sign = c\<rparr>)"
proof -
  let ?s = "b64_json token_header @ 46 # b64_json data @ 46 # c"
  have "ascii ?s"
    using assms(2) by (simp add: b64_text_ascii b64_json_text)
  then have "decodeURIComponent (wire ?s) = Some ?s"
    by (rule decodeURIComponent_wire)
  from decode_segments [OF this] assms show ?thesis
    by (simp add: b64_text_no_dot b64_json_text parse_header_segment atob_b64_json)
qed

lemma roundtrip_general:
  assumes "key \<noteq> []" and "stringify_val data = Some p"
  shows "roundtrip data key =
     (case json_parse (map (\<lambda>c. c mod 256) p) of
        None \<Rightarrow> IsFalse
      | Some bd \<Rightarrow> Is \<lparr>header = token_header, body = bd, sign = signature key data\<rparr>)"
  using assms by (simp add: roundtrip_def encode_wire decode_wire signature_text)

lemma header_text:
  "stringify_val token_header
     = Some [123, 34, 97, 108, 103, 34, 58, 34, 83, 72, 65, 50, 53, 54, 34, 125]"
  by (simp add: token_header_def js_def quote_json_string_def quote_unit_def is_surrogate_def
      is_high_surrogate_def)

lemma header_segment: "b64_json token_header = js ''eyJhbGciOiJTSEEyNTYifQ==''"
  by (simp add: b64_json_def btoa_def header_text buffer_from_binary_def b64_char_def js_def)

lemma wire_cons: "wire (c # s) = encode_point c @ wire s"
  by (simp add: wire_def)

lemma token_for_first: "\<exists>s. token_for data key = 101 # s"
  by (simp add: token_for_def header_segment js_def wire_cons encode_point_def uri_unreserved_def)

lemma str_to_number_letter:
  assumes "\<not> js_ws c" "c \<noteq> 45" "c \<noteq> 43" "\<not> is_digit c"
  shows "str_to_number (c # s) = None"
proof -
  have "rev (dropWhile js_ws (rev (dropWhile js_ws (c # s)))) = c # rev (dropWhile js_ws (rev s))"
    using assms(1) by (simp add: dropWhile_append3)
  then show ?thesis
    using assms by (simp add: str_to_number_def Let_def)
qed

lemma token_not_false: "\<not> is_false (Is (token_for data key))"
proof -
  obtain s where s: "token_for data key = 101 # s"
    using token_for_first by blast
  have "str_to_number (101 # s) = None"
    by (rule str_to_number_letter) (simp_all add: js_ws_def is_digit_def)
  then show ?thesis
    by (simp add: is_false_def s loose_eq_def is_nullish_def is_object_def to_number_def)
qed

lemma encode_token_for:
  "key \<noteq> [] \<Longrightarrow> stringify_val data = Some p \<Longrightarrow> encode data key = Is (token_for data key)"
  by (simp add: encode_wire token_for_def)

lemma plain_value_alloc: "plain_value (h @ [Payload i g e d]) a = plain_value h a"
  by (auto simp: plain_value_def nth_append split: cell.splits)

lemma payload_value_alloc:
  "payload_value (h @ [Payload i g e d]) (length h) = payload i g e (plain_value h d)"
  by (simp add: payload_value_def payload_def plain_value_alloc)

lemma payload_stringify: "\<exists>p. stringify_val (payload i g e d) = Some p"
  by (simp add: payload_def)

lemma generate_access_only:
  assumes "akey \<noteq> []"
  shows "generate (Some c) now h user akey [] =
     (Is \<lparr>accessToken = token_for (payload (DOMAIN c) now (now + day_ms * LTT c) (plain_value h user)) akey,
          refreshToken = None, dateAccess = now + day_ms * LTT c, dateRefresh = None\<rparr>,
      h @ [Payload (DOMAIN c) now (now + day_ms * LTT c) user])"
proof -
  obtain p where "stringify_val (payload (DOMAIN c) now (now + day_ms * LTT c) (plain_value h user)) = Some p"
    using payload_stringify by blast
  from encode_token_for [OF assms this] show ?thesis
    by (simp add: generate_def generate_try_def alloc_def payload_value_alloc token_not_false
        catch_log_def payload_exp_def day_ms_def)
qed

lemma generate_both:
  assumes "akey \<noteq> []" "rkey \<noteq> []"
  shows "generate (Some c) now h user akey rkey =
     (Is \<lparr>accessToken = token_for (payload (DOMAIN c) now (now + day_ms * LTT c) (plain_value h user)) akey,
          refreshToken = Some (token_for (payload (DOMAIN c) now (now + day_ms * LTRT c) (plain_value h user)) rkey),
          dateAccess = now + day_ms * LTT c, dateRefresh = Some (now + day_ms * LTRT c)\<rparr>,
      h @ [Payload (DOMAIN c) now (now + day_ms * LTRT c) user])"
proof -
  obtain p where p: "stringify_val (payload (DOMAIN c) now (now + day_ms * LTT c) (plain_value h user)) = Some p"
    using payload_stringify by blast
  obtain q where q: "stringify_val (payload (DOMAIN c) now (now + day_ms * LTRT c) (plain_value h user)) = Some q"
    using payload_stringify by blast
  have s: "set_exp (h @ [Payload i g e d]) (length h) e' = h @ [Payload i g e' d]" for i g e d e'
    by (simp add: set_exp_def)
  from encode_token_for [OF assms(1) p] encode_token_for [OF assms(2) q] assms(2) show ?thesis
    by (simp add: generate_def generate_try_def alloc_def payload_value_alloc token_not_false
        catch_log_def payload_exp_def day_ms_def s)
qed

lemma verify_cases:
  "verify now1 now2 user akey atoken rkey rtoken =
     (case decode atoken of
        IsFalse \<Rightarrow> False
      | Is d \<Rightarrow>
          has_capability user \<and> \<not> is_nullish (body d)
          \<and> data_matches (prop_value (body d) (js ''data'')) user
          \<and> (success (validate now1 atoken akey)
              \<or> (case (rkey, rtoken) of
                    (Some rk, Some rt) \<Rightarrow>
                      (case decode rt of
                         IsFalse \<Rightarrow> False
                       | Is dr \<Rightarrow>
                           refresh_matches (prop_value (body d) (js ''data'')) dr
                           \<and> success (validate now2 rt rk))
                  | _ \<Rightarrow> False)))"
proof (cases "decode atoken")
  case IsFalse
  then show ?thesis by (simp add: verify_def verify_try_def catch_log_def)
next
  case (Is d)
  show ?thesis
  proof (cases "is_nullish (body d)")
    case True
    then have "get_prop (body d) (js ''data'') = Inl TypeError"
      by (auto simp: is_nullish_def get_prop_def)
    with Is True show ?thesis
      by (simp add: verify_def verify_try_def catch_log_def has_capability_def)
  next
    case False
    then obtain adata where a: "get_prop (body d) (js ''data'') = Inr adata"
      by (cases "body d") (auto simp: is_nullish_def get_prop_def)
    then have p: "prop_value (body d) (js ''data'') = adata"
      by (simp add: prop_value_def)
    show ?thesis
      using Is False a
      by (auto simp: verify_def verify_try_def catch_log_def has_capability_def p
          for_in_user_matches refresh_matches_def
          split: option.splits or_false.splits sum.splits bool.splits)
  qed
qed

subsection \<open>split and join\<close>

lemma split_on_sep_free: "x \<in> set (split_on sep t) \<Longrightarrow> sep \<notin> set x"
proof (induction t arbitrary: x)
  case Nil
  then show ?case by simp
next
  case (Cons c t)
  then show ?case
    by (cases "split_on sep t") (auto split: if_splits)
qed

lemma join_split: "join_with sep (split_on sep t) = t"
proof (induction t)
  case Nil
  then show ?case by simp
next
  case (Cons c t)
  obtain x xs where e: "split_on sep t = x # xs"
    using split_on_nonempty [of sep t] by (cases "split_on sep t") auto
  with Cons show ?case
    by (cases xs) auto
qed

lemma split_three_conv:
  assumes "split_on 46 t = [a, b, c]"
  shows "t = a @ 46 # b @ 46 # c \<and> 46 \<notin> set a \<and> 46 \<notin> set b \<and> 46 \<notin> set c"
proof -
  have "join_with 46 [a, b, c] = t"
    using join_split [of 46 t] assms by simp
  moreover have "46 \<notin> set x" if "x \<in> set [a, b, c]" for x
    using split_on_sep_free [of x 46 t] that assms by simp
  ultimately show ?thesis by auto
qed

lemma corrupted_decodes:
  assumes "signature_corrupted A A'"
    and "decodeURIComponent A = Some (a @ 46 # b @ 46 # c)"
    and "46 \<notin> set a" "46 \<notin> set b" "46 \<notin> set c"
  shows "\<exists>c'. decodeURIComponent A' = Some (a @ 46 # b @ 46 # c') \<and> 46 \<notin> set c' \<and> c' \<noteq> c"
proof -
  have s: "split_on 46 (a @ 46 # b @ 46 # c) = [a, b, c]"
    using split_three [OF assms(3-5)] by simp
  from assms(1,2) obtain t' where t': "decodeURIComponent A' = Some t'"
    by (auto simp: signature_corrupted_def split: option.splits)
  from assms(1,2) s t' obtain c' where c': "split_on 46 t' = [a, b, c']" "c' \<noteq> c"
    by (auto simp: signature_corrupted_def split: list.splits)
  from split_three_conv [OF c'(1)] t' c'(2) show ?thesis by auto
qed

subsection \<open>The digest has 64 bytes\<close>

lemma sha512_round_length: "length st = 8 \<Longrightarrow> length (sha512_round st kw) = 8"
proof -
  assume "length st = 8"
  then obtain a b c d e f g h where "st = [a, b, c, d, e, f, g, h]"
    by (auto simp: length_Suc_conv eval_nat_numeral)
  then show ?thesis
    by (cases kw) (simp add: Let_def)
qed

lemma foldl_round_length: "length st = 8 \<Longrightarrow> length (foldl sha512_round st kws) = 8"
  by (induction kws arbitrary: st) (simp_all add: sha512_round_length)

lemma sha512_block_length: "length hs = 8 \<Longrightarrow> length (sha512_block hs block) = 8"
  by (simp add: sha512_block_def foldl_round_length)

lemma foldl_block_length: "length hs = 8 \<Longrightarrow> length (foldl sha512_block hs blocks) = 8"
  by (induction blocks arbitrary: hs) (simp_all add: sha512_block_length)

lemma length_concat_fixed: "\<forall>x \<in> set xs. length (f x) = k \<Longrightarrow> length (concat (map f xs)) = k * length xs"
  by (induction xs) simp_all

lemma sha512_length: "length (sha512 m) = 64"
proof -
  have "length (foldl sha512_block sha512_h0 blocks) = 8" for blocks
    by (rule foldl_block_length) (simp add: sha512_h0_def)
  moreover have "length (word_bytes w) = 8" for w
    by (simp add: word_bytes_def)
  ultimately show ?thesis
    using length_concat_fixed [of _ word_bytes 8] by (simp add: sha512_def)
qed

lemma hmac_length: "length (hmac_sha512 key t) = 64"
  by (simp add: hmac_sha512_def Let_def sha512_length)

lemma base64_encode_padded:
  "length bs mod 3 = 1 \<Longrightarrow> \<exists>s0. base64_encode bs = s0 @ [61, 61] \<and> b64_text s0"
proof (induction bs rule: base64_encode.induct)
  case (1 a b c rest)
  then have "length rest mod 3 = 1" by simp
  with 1 obtain s0 where "base64_encode rest = s0 @ [61, 61]" "b64_text s0" by auto
  then show ?case
    by (auto simp: b64_text_def b64_char_ascii b64_char_not_dot
        intro: exI [of _ "[b64_char (a div 4), b64_char (a mod 4 * 16 + b div 16),
          b64_char (b mod 16 * 4 + c div 64), b64_char (c mod 64)] @ s0"])
next
  case (2 a b)
  then show ?case by simp
next
  case (3 a)
  then show ?case
    by (auto simp: b64_text_def b64_char_ascii b64_char_not_dot
        intro: exI [of _ "[b64_char (a div 4), b64_char (a mod 4 * 16)]"])
next
  case 4
  then show ?case by simp
qed

lemma signature_padded: "\<exists>s0. signature key data = s0 @ [61, 61] \<and> b64_text s0"
  unfolding signature_def
  by (rule base64_encode_padded) (simp add: hmac_length)

subsection \<open>The tokens of generate\<close>

lemma wire_append: "wire (a @ b) = wire a @ wire b"
  by (simp add: wire_def)

lemma wire_nil: "wire [] = []"
  by (simp add: wire_def)

lemma wire_pad [simp]: "wire [61] = [37, 51, 68]"
  by (simp add: wire_def encode_point_def uri_unreserved_def utf8_bytes_def percent_byte_def
      hex_digit_upper_def)

lemma decodeURIComponent_token_for:
  "decodeURIComponent (token_for data key)
     = Some (b64_json token_header @ 46 # b64_json data @ 46 # signature key data)"
  unfolding token_for_def
  by (rule decodeURIComponent_wire)
    (simp add: b64_text_ascii b64_json_text signature_text)

lemma decode_token_for:
  assumes "json_ok data"
  shows "decode (token_for data key)
     = Is \<lparr>header = token_header, body = data, sign = signature key data\<rparr>"
proof -
  obtain t where t: "stringify_val data = Some t" "latin1 t" "json_parse t = Some data"
    using json_roundtrip [OF assms] by blast
  then show ?thesis
    using decode_wire [OF t(1) signature_text, of key]
    by (simp add: token_for_def latin1_mod)
qed

lemma signed_part_token_for:
  "signed_part (token_for data key) = b64_json token_header @ 46 # b64_json data"
  using signed_part_segments [OF decodeURIComponent_token_for]
  by (simp add: b64_text_no_dot b64_json_text signature_text)

lemma validate_token_for:
  assumes "json_ok (payload i g e d)"
  shows "validate now (token_for (payload i g e d) key) key' =
     (if e < now then \<lparr>success = True, message = msg_expired\<rparr>
      else if signature key (payload i g e d) \<noteq> signature key' (payload i g e d)
      then \<lparr>success = False, message = msg_invalid\<rparr>
      else \<lparr>success = True, message = msg_valid\<rparr>)"
proof -
  have x: "get_prop (payload i g e d) (js ''exp'') = Inr (JNum e)"
    by (simp add: payload_def get_prop_def obj_get_def js_def)
  show ?thesis
    by (simp add: validate_cases decode_token_for [OF assms] x js_lt_def to_number_def
        signed_part_token_for signature_def)
qed

lemma validate_own_token:
  "json_ok (payload i g e d) \<Longrightarrow> success (validate now (token_for (payload i g e d) key) key)"
  by (simp add: validate_token_for)

lemma decode_same_segments:
  assumes "json_ok data"
    and "decodeURIComponent tok = Some (b64_json token_header @ 46 # b64_json data @ 46 # c)"
    and "46 \<notin> set c"
  shows "decode tok = Is \<lparr>header = token_header, body = data, sign = c\<rparr>"
    and "signed_part tok = b64_json token_header @ 46 # b64_json data"
proof -
  obtain t where t: "stringify_val data = Some t" "latin1 t" "json_parse t = Some data"
    using json_roundtrip [OF assms(1)] by blast
  have n: "46 \<notin> set (b64_json token_header)" "46 \<notin> set (b64_json data)"
    by (simp_all add: b64_text_no_dot b64_json_text)
  from decode_segments [OF assms(2) n assms(3)] t
  show "decode tok = Is \<lparr>header = token_header, body = data, sign = c\<rparr>"
    by (simp add: parse_header_segment atob_b64_json latin1_mod)
  from signed_part_segments [OF assms(2) n assms(3)]
  show "signed_part tok = b64_json token_header @ 46 # b64_json data" .
qed

lemma scenario_identity_ok: "json_ok (JObj scenario_identity)"
  by (simp add: scenario_identity_def js_def)

lemma payload_ok: "json_ok i \<Longrightarrow> json_ok d \<Longrightarrow> json_ok (payload i g e d)"
  by (simp add: payload_def js_def)

lemma payload_props:
  "get_prop (payload i g e d) (js ''exp'') = Inr (JNum e)"
  "prop_value (payload i g e d) (js ''data'') = d"
  "\<not> is_nullish (payload i g e d)"
  by (simp_all add: payload_def get_prop_def prop_value_def obj_get_def js_def is_nullish_def)

lemma scenario_capability: "has_capability scenario_identity"
  by (simp add: has_capability_def has_own_def scenario_identity_def js_def)

lemma scenario_data_matches: "data_matches (JObj scenario_identity) scenario_identity"
  by (simp add: data_matches_def enum_keys_def scenario_identity_def prop_value_def get_prop_def
      obj_get_def js_def loose_eq_def is_nullish_def is_object_def)

lemma scenario_refresh_matches:
  "refresh_matches (JObj scenario_identity)
     \<lparr>header = hd', body = payload i g e (JObj scenario_identity), sign = sg\<rparr>"
  by (simp add: refresh_matches_def enum_keys_def scenario_identity_def differs_from_refresh_def
      payload_def get_prop_def obj_get_def js_def loose_eq_def is_nullish_def is_object_def)

lemma keys_nonempty: "js ''k1'' \<noteq> []" "js ''k2'' \<noteq> []"
  by (simp_all add: js_def)

lemma verify_generated:
  fixes i :: jsval and g e1 e2 :: int
  assumes "json_ok i"
  defines "A \<equiv> token_for (payload i g e1 (JObj scenario_identity)) (js ''k1'')"
    and "R \<equiv> token_for (payload i g e2 (JObj scenario_identity)) (js ''k2'')"
  shows "verify now1 now2 scenario_identity (js ''k1'') A rk rt"
    and "signature_corrupted A A' \<Longrightarrow>
           verify now1 now2 scenario_identity (js ''k1'') A' (Some (js ''k2'')) (Some R)"
    and "signature_corrupted A A' \<Longrightarrow> now1 \<le> e1 \<Longrightarrow>
           \<not> success (validate now1 A' (js ''k1''))
           \<and> \<not> verify now1 now2 scenario_identity (js ''k1'') A' None None"
proof -
  let ?P1 = "payload i g e1 (JObj scenario_identity)"
  let ?P2 = "payload i g e2 (JObj scenario_identity)"
  have ok1: "json_ok ?P1" and ok2: "json_ok ?P2"
    using assms(1) payload_ok scenario_identity_ok by blast+
  show "verify now1 now2 scenario_identity (js ''k1'') A rk rt"
    unfolding A_def
    by (simp add: verify_cases decode_token_for [OF ok1] payload_props scenario_capability
        scenario_data_matches validate_own_token [OF ok1])
  have dR: "decode R = Is \<lparr>header = token_header, body = ?P2, sign = signature (js ''k2'') ?P2\<rparr>"
    unfolding R_def by (rule decode_token_for [OF ok2])
  have vR: "success (validate now2 R (js ''k2''))"
    unfolding R_def by (rule validate_own_token [OF ok2])
  {
    assume c: "signature_corrupted A A'"
    have uA: "decodeURIComponent A
        = Some (b64_json token_header @ 46 # b64_json ?P1 @ 46 # signature (js ''k1'') ?P1)"
      unfolding A_def by (rule decodeURIComponent_token_for)
    from corrupted_decodes [OF c uA] obtain c' where
      c': "decodeURIComponent A' = Some (b64_json token_header @ 46 # b64_json ?P1 @ 46 # c')"
      "46 \<notin> set c'" "c' \<noteq> signature (js ''k1'') ?P1"
      by (auto simp: b64_text_no_dot b64_json_text signature_text)
    note d = decode_same_segments [OF ok1 c'(1,2)]
    have v: "validate now1 A' (js ''k1'') =
        (if e1 < now1 then \<lparr>success = True, message = msg_expired\<rparr>
         else \<lparr>success = False, message = msg_invalid\<rparr>)"
      using c'(3)
      by (simp add: validate_cases d payload_props js_lt_def to_number_def signature_def)
    show "verify now1 now2 scenario_identity (js ''k1'') A' (Some (js ''k2'')) (Some R)"
      by (simp add: verify_cases d payload_props scenario_capability scenario_data_matches
          dR scenario_refresh_matches vR)
    {
      assume "now1 \<le> e1"
      then show "\<not> success (validate now1 A' (js ''k1''))
           \<and> \<not> verify now1 now2 scenario_identity (js ''k1'') A' None None"
        by (simp add: v verify_cases d)
    }
  }
qed

section \<open>The results of validate\<close>

text \<open>
  C1. The claim: for every token and key, \<open>validate\<close> returns exactly one of four
  results (corrupted when decoding fails, else expired when \<open>exp\<close> is less than the
  current time, else invalid when the recomputed signature differs, else valid).
  The method has a fifth result: when the decoded payload is \<open>null\<close>, reading its
  \<open>exp\<close> throws, and the \<open>catch\<close> returns \<open>success: false\<close> with the message
  \<open>msg_error\<close>. The token \<open>null_body_token\<close> shows it, and so does the token
  \<open>encode(null, "k")\<close> validated with its own key: it decodes, has no past \<open>exp\<close>
  and carries the right signature, and is still not reported valid.
\<close>

theorem validate_null_body_counterexample:
  "validate 0 null_body_token (js ''k'')
     \<notin> {\<lparr>success = False, message = msg_corrupted\<rparr>, \<lparr>success = True, message = msg_expired\<rparr>,
        \<lparr>success = False, message = msg_invalid\<rparr>, \<lparr>success = True, message = msg_valid\<rparr>}
   \<and> encode JNull (js ''k'') = Is (token_for JNull (js ''k''))
   \<and> decode (token_for JNull (js ''k''))
       = Is \<lparr>header = token_header, body = JNull, sign = signature (js ''k'') JNull\<rparr>
   \<and> signature (js ''k'') JNull
       = base64_encode (hmac_sha512 (js ''k'') (signed_part (token_for JNull (js ''k''))))
   \<and> validate 0 (token_for JNull (js ''k'')) (js ''k'') = \<lparr>success = False, message = msg_error\<rparr>"
proof -
  have "validate 0 null_body_token (js ''k'') = \<lparr>success = False, message = msg_error\<rparr>"
    by (simp add: validate_cases decode_null_body_token get_prop_def)
  then have 1: "validate 0 null_body_token (js ''k'')
     \<notin> {\<lparr>success = False, message = msg_corrupted\<rparr>, \<lparr>success = True, message = msg_expired\<rparr>,
        \<lparr>success = False, message = msg_invalid\<rparr>, \<lparr>success = True, message = msg_valid\<rparr>}"
    by (simp add: messages_differ)
  have k: "js ''k'' \<noteq> []" by (simp add: js_def)
  have s: "stringify_val JNull = Some (js ''null'')" by simp
  have 2: "encode JNull (js ''k'') = Is (token_for JNull (js ''k''))"
    by (rule encode_token_for [OF k s])
  have ok: "json_ok JNull" by simp
  note 3 = decode_token_for [OF ok, of "js ''k''"]
  have 4: "signature (js ''k'') JNull
       = base64_encode (hmac_sha512 (js ''k'') (signed_part (token_for JNull (js ''k''))))"
    by (simp add: signed_part_token_for signature_def)
  have 5: "validate 0 (token_for JNull (js ''k'')) (js ''k'')
      = \<lparr>success = False, message = msg_error\<rparr>"
    by (simp add: validate_cases 3 get_prop_def)
  from 1 2 3 4 5 show ?thesis by simp
qed

text \<open>
  C1, as the code has it: \<open>validate\<close> returns one of five results, decided in this
  order: decoding fails; the payload is \<open>null\<close>, so that its \<open>exp\<close> cannot be read;
  \<open>exp\<close> is less than the current time; the signature recomputed with the key over the
  first two segments differs from the third segment; none of these.
\<close>

theorem validate_five_results:
  "validate now token key =
     (case decode token of
        IsFalse \<Rightarrow> \<lparr>success = False, message = msg_corrupted\<rparr>
      | Is d \<Rightarrow>
          (case get_prop (body d) (js ''exp'') of
             Inl err \<Rightarrow> \<lparr>success = False, message = msg_error\<rparr>
           | Inr exp \<Rightarrow>
               if js_lt exp now then \<lparr>success = True, message = msg_expired\<rparr>
               else if sign d \<noteq> base64_encode (hmac_sha512 key (signed_part token))
               then \<lparr>success = False, message = msg_invalid\<rparr>
               else \<lparr>success = True, message = msg_valid\<rparr>))"
  by (rule validate_cases)

theorem validate_five_results_witness:
  "validate 5 expired_token (js ''k'') = \<lparr>success = True, message = msg_expired\<rparr>"
  using validate_five_results [of 5 expired_token "js ''k''"]
  by (simp add: decode_expired_token expired_token_exp js_lt_def to_number_def)

section \<open>Round trip of a token\<close>

text \<open>
  C3. The claim: for every JSON-serializable payload and non-empty key, decoding the
  encoded token gives back the header \<open>{alg:"SHA256"}\<close> and the payload exactly, with
  the base64 HMAC-SHA512 signature. \<open>btoa\<close> keeps only the low byte of every code
  unit, so a payload with a character above U+00FF comes back changed: the string of the
  one character U+0141 comes back as the string \<open>A\<close>.
\<close>

theorem decode_encode_counterexample:
  "roundtrip (JStr [321]) (js ''k'')
     = Is \<lparr>header = token_header, body = JStr [65], sign = signature (js ''k'') (JStr [321])\<rparr>
   \<and> JStr [65] \<noteq> JStr [321]"
proof -
  have k: "js ''k'' \<noteq> []" by (simp add: js_def)
  have s: "stringify_val (JStr [321]) = Some [34, 321, 34]"
    by (simp add: quote_json_string_def quote_unit_def is_surrogate_def)
  have "json_parse (map (\<lambda>c. c mod 256) [34, 321, 34]) = Some (JStr [65])"
    by code_simp
  then show ?thesis
    using roundtrip_general [OF k s] by simp
qed

text \<open>
  C3, as the code has it: for every payload without \<open>undefined\<close>, with distinct keys
  in each object and with Latin-1 strings and keys only, and for every non-empty key,
  decoding the encoded token succeeds and gives the header \<open>{alg:"SHA256"}\<close>, the
  payload itself, and as signature the base64 HMAC-SHA512 of the key over the base64
  header segment, a dot, and the base64 payload segment.
\<close>

theorem decode_encode:
  assumes "json_ok data" and "key \<noteq> []"
  shows "roundtrip data key
    = Is \<lparr>header = token_header, body = data,
          sign = base64_encode
                   (hmac_sha512 key (b64_json token_header @ [46] @ b64_json data))\<rparr>"
proof -
  obtain t where t: "stringify_val data = Some t" "latin1 t" "json_parse t = Some data"
    using json_roundtrip [OF assms(1)] by blast
  then show ?thesis
    using roundtrip_general [OF assms(2) t(1)] by (simp add: latin1_mod signature_def)
qed

theorem decode_encode_witness:
  "roundtrip (JObj scenario_identity) (js ''k1'')
    = Is \<lparr>header = token_header, body = JObj scenario_identity,
          sign = base64_encode
                   (hmac_sha512 (js ''k1'')
                      (b64_json token_header @ [46] @ b64_json (JObj scenario_identity)))\<rparr>"
  using decode_encode [OF scenario_identity_ok keys_nonempty(1)] .

section \<open>What generate returns\<close>

text \<open>
  C7. With the configuration set and a non-empty access key, \<open>generate\<close> without a
  refresh key returns the access token and \<open>dateAccess\<close>, the current time plus the
  access lifetime in days times 86,400,000, and no refresh token; with a non-empty
  refresh key it returns in addition the refresh token and \<open>dateRefresh\<close>, the current
  time plus the refresh lifetime in days times 86,400,000, and \<open>dateRefresh\<close> is later
  than \<open>dateAccess\<close> when the refresh lifetime exceeds the access lifetime.
\<close>

theorem generate_results:
  assumes "akey \<noteq> []"
  shows "fst (generate (Some c) now h user akey []) =
       Is \<lparr>accessToken =
              token_for (payload (DOMAIN c) now (now + LTT c * 86400000) (plain_value h user)) akey,
            refreshToken = None, dateAccess = now + LTT c * 86400000, dateRefresh = None\<rparr>
     \<and> (rkey \<noteq> [] \<longrightarrow>
          fst (generate (Some c) now h user akey rkey) =
            Is \<lparr>accessToken =
                   token_for (payload (DOMAIN c) now (now + LTT c * 86400000) (plain_value h user)) akey,
                 refreshToken =
                   Some (token_for (payload (DOMAIN c) now (now + LTRT c * 86400000)
                                      (plain_value h user)) rkey),
                 dateAccess = now + LTT c * 86400000,
                 dateRefresh = Some (now + LTRT c * 86400000)\<rparr>
          \<and> (LTT c < LTRT c \<longrightarrow> now + LTT c * 86400000 < now + LTRT c * 86400000))"
  using assms
  by (simp add: generate_access_only generate_both day_ms_def mult.commute)

theorem generate_results_witness:
  "fst (generate (Some scenario_config) scenario_now [Plain scenario_identity] 0 (js ''k1'') []) =
       Is \<lparr>accessToken =
              token_for (payload (JStr (js ''example.com'')) 1700000000000 1700086400000
                           (JObj scenario_identity)) (js ''k1''),
            refreshToken = None, dateAccess = 1700086400000, dateRefresh = None\<rparr>
   \<and> fst (generate (Some scenario_config) scenario_now [Plain scenario_identity] 0
            (js ''k1'') (js ''k2'')) =
       Is \<lparr>accessToken =
              token_for (payload (JStr (js ''example.com'')) 1700000000000 1700086400000
                           (JObj scenario_identity)) (js ''k1''),
            refreshToken =
              Some (token_for (payload (JStr (js ''example.com'')) 1700000000000 1702592000000
                                 (JObj scenario_identity)) (js ''k2'')),
            dateAccess = 1700086400000, dateRefresh = Some 1702592000000\<rparr>"
  using generate_results [OF keys_nonempty(1), of scenario_config scenario_now
      "[Plain scenario_identity]" 0 "js ''k2''"] keys_nonempty(2)
  by (simp add: scenario_config_def scenario_now_def plain_value_def)

section \<open>The scenario\<close>

lemma token_for_split:
  "\<exists>x s0. ascii x \<and> b64_text s0
     \<and> x = b64_json token_header @ 46 # b64_json data @ [46]
     \<and> signature key data = s0 @ [61, 61]
     \<and> token_for data key = wire (x @ s0 @ [61]) @ [37, 51, 68]"
proof -
  obtain s0 where s0: "signature key data = s0 @ [61, 61]" "b64_text s0"
    using signature_padded by blast
  let ?x = "b64_json token_header @ 46 # b64_json data @ [46]"
  have "ascii ?x" by (simp add: b64_text_ascii b64_json_text)
  moreover have "token_for data key = wire (?x @ s0 @ [61]) @ [37, 51, 68]"
  proof -
    have "token_for data key = wire ((?x @ s0 @ [61]) @ [61])"
      by (simp add: token_for_def s0(1))
    also have "\<dots> = wire (?x @ s0 @ [61]) @ wire [61]"
      by (rule wire_append)
    finally show ?thesis by simp
  qed
  ultimately show ?thesis using s0 by blast
qed

lemma decode_escape_gt: "decodeURIComponent [37, 51, 69] = Some [62]"
  by (simp add: decodeURIComponent_def hex_value_def)

lemma decode_escape_broken: "decodeURIComponent [37, 51, 88] = None"
  by (simp add: decodeURIComponent_def hex_value_def)

lemma corrupted_last:
  "signature_corrupted (token_for data key) (butlast (token_for data key) @ [69])"
proof -
  obtain x s0 where x: "ascii x" "b64_text s0"
    "x = b64_json token_header @ 46 # b64_json data @ [46]"
    "signature key data = s0 @ [61, 61]"
    "token_for data key = wire (x @ s0 @ [61]) @ [37, 51, 68]"
    using token_for_split by blast
  have a: "ascii (x @ s0 @ [61])"
    using x(1,2) by (simp add: b64_text_ascii)
  have "butlast (token_for data key) @ [69] = wire (x @ s0 @ [61]) @ [37, 51, 69]"
    by (simp add: x(5) butlast_append)
  then have d': "decodeURIComponent (butlast (token_for data key) @ [69])
      = Some (b64_json token_header @ 46 # b64_json data @ 46 # (s0 @ [61, 62]))"
    using decodeURIComponent_encoded [OF a, of "[37, 51, 69]"]
    by (simp add: wire_def decode_escape_gt x(3))
  have d: "decodeURIComponent (token_for data key)
      = Some (b64_json token_header @ 46 # b64_json data @ 46 # (s0 @ [61, 61]))"
    by (simp add: decodeURIComponent_token_for x(4))
  have n: "46 \<notin> set (b64_json token_header)" "46 \<notin> set (b64_json data)"
    "46 \<notin> set (s0 @ [61, 61])" "46 \<notin> set (s0 @ [61, 62])"
    using x(2) by (simp_all add: b64_text_no_dot b64_json_text)
  show ?thesis
    using split_three [OF n(1,2,3)] split_three [OF n(1,2,4)]
    by (simp add: signature_corrupted_def d d')
qed

lemma broken_last: "decode (butlast (token_for data key) @ [88]) = IsFalse"
proof -
  obtain x s0 where x: "ascii x" "b64_text s0"
    "token_for data key = wire (x @ s0 @ [61]) @ [37, 51, 68]"
    using token_for_split by blast
  have a: "ascii (x @ s0 @ [61])"
    using x(1,2) by (simp add: b64_text_ascii)
  have "butlast (token_for data key) @ [88] = wire (x @ s0 @ [61]) @ [37, 51, 88]"
    by (simp add: x(3) butlast_append)
  then have "decodeURIComponent (butlast (token_for data key) @ [88]) = None"
    using decodeURIComponent_encoded [OF a, of "[37, 51, 88]"]
    by (simp add: wire_def decode_escape_broken)
  then show ?thesis
    by (simp add: decode_def decode_try_def catch_log_def)
qed

lemma last_token_for: "last (token_for data key) = 68"
proof -
  obtain x s0 where "token_for data key = wire (x @ s0 @ [61]) @ [37, 51, 68]"
    using token_for_split by blast
  then show ?thesis by simp
qed

lemma scenario_generated:
  "scenario_tokens =
     Is \<lparr>accessToken =
            token_for (payload (JStr (js ''example.com'')) 1700000000000 1700086400000
                         (JObj scenario_identity)) (js ''k1''),
          refreshToken =
            Some (token_for (payload (JStr (js ''example.com'')) 1700000000000 1702592000000
                               (JObj scenario_identity)) (js ''k2'')),
          dateAccess = 1700086400000, dateRefresh = Some 1702592000000\<rparr>"
  by (simp add: scenario_tokens_def generate_both keys_nonempty scenario_config_def
      scenario_now_def plain_value_def day_ms_def)

lemma scenario_domain_ok: "json_ok (DOMAIN scenario_config)"
  by (simp add: scenario_config_def js_def)

text \<open>
  C4. The claim: in the scenario, \<open>verify\<close> accepts the generated access token, and for
  an access token with one corrupted character in its signature segment it falls through
  to the refresh token and still returns true. The last character of the access token
  belongs to the percent escape \<open>%3D\<close> of the signature's padding; with an \<open>X\<close> in
  its place the token no longer percent-decodes, \<open>decode\<close> returns \<open>false\<close>, and
  \<open>verify\<close> returns false.
\<close>

theorem scenario_broken_escape_counterexample:
  "last scenario_access = 68
   \<and> \<not> verify 1700000000001 1700000000002 scenario_identity (js ''k1'')
         (butlast scenario_access @ js ''X'') (Some (js ''k2'')) scenario_refresh"
proof -
  have "js ''X'' = [88]" by (simp add: js_def)
  then show ?thesis
    by (simp add: scenario_access_def scenario_generated last_token_for verify_cases broken_last)
qed

text \<open>
  C4, as the code has it: in the scenario (the configured domain a Latin-1 value),
  \<open>generate\<close> returns an access token \<open>A\<close> and a refresh token \<open>R\<close> that
  \<open>verify\<close> accepts at any time; for every \<open>A'\<close> that still percent-decodes and has
  the first two segments of \<open>A\<close> and a different third segment, \<open>verify\<close> with the
  refresh pair returns true, and when the access token has not expired, \<open>validate\<close> of
  \<open>A'\<close> fails and \<open>verify\<close> without the refresh pair returns false: the result comes
  from the refresh token.
\<close>

theorem scenario_fallback:
  assumes "json_ok (DOMAIN c)" and "plain_value h u = JObj scenario_identity"
  shows "\<exists>A R. fst (generate (Some c) now h u (js ''k1'') (js ''k2'')) =
            Is \<lparr>accessToken = A, refreshToken = Some R, dateAccess = now + LTT c * 86400000,
                 dateRefresh = Some (now + LTRT c * 86400000)\<rparr>
     \<and> verify now1 now2 scenario_identity (js ''k1'') A (Some (js ''k2'')) (Some R)
     \<and> (\<forall>A'. signature_corrupted A A' \<longrightarrow>
           verify now1 now2 scenario_identity (js ''k1'') A' (Some (js ''k2'')) (Some R)
           \<and> (now1 \<le> now + LTT c * 86400000 \<longrightarrow>
                \<not> success (validate now1 A' (js ''k1''))
                \<and> \<not> verify now1 now2 scenario_identity (js ''k1'') A' None None))"
  using assms(2) verify_generated [OF assms(1)]
  by (simp add: generate_both keys_nonempty day_ms_def mult.commute)

theorem scenario_fallback_witness:
  "verify 1700000000001 1700000000002 scenario_identity (js ''k1'') scenario_access
     (Some (js ''k2'')) scenario_refresh
   \<and> signature_corrupted scenario_access (butlast scenario_access @ js ''E'')
   \<and> verify 1700000000001 1700000000002 scenario_identity (js ''k1'')
       (butlast scenario_access @ js ''E'') (Some (js ''k2'')) scenario_refresh
   \<and> \<not> success (validate 1700000000001 (butlast scenario_access @ js ''E'') (js ''k1''))
   \<and> \<not> verify 1700000000001 1700000000002 scenario_identity (js ''k1'')
         (butlast scenario_access @ js ''E'') None None"
proof -
  have p: "plain_value [Plain scenario_identity] 0 = JObj scenario_identity"
    by (simp add: plain_value_def)
  obtain A R where
    gen: "fst (generate (Some scenario_config) scenario_now [Plain scenario_identity] 0
            (js ''k1'') (js ''k2'')) =
          Is \<lparr>accessToken = A, refreshToken = Some R,
               dateAccess = scenario_now + LTT scenario_config * 86400000,
               dateRefresh = Some (scenario_now + LTRT scenario_config * 86400000)\<rparr>"
    and v: "verify 1700000000001 1700000000002 scenario_identity (js ''k1'') A
              (Some (js ''k2'')) (Some R)"
    and f: "\<forall>A'. signature_corrupted A A' \<longrightarrow>
           verify 1700000000001 1700000000002 scenario_identity (js ''k1'') A'
             (Some (js ''k2'')) (Some R)
           \<and> (1700000000001 \<le> scenario_now + LTT scenario_config * 86400000 \<longrightarrow>
                \<not> success (validate 1700000000001 A' (js ''k1''))
                \<and> \<not> verify 1700000000001 1700000000002 scenario_identity (js ''k1'') A'
                      None None)"
    using scenario_fallback [OF scenario_domain_ok p, of scenario_now 1700000000001
        1700000000002]
    by blast
  from gen have a: "scenario_access = A" and r: "scenario_refresh = Some R"
    by (simp_all add: scenario_access_def scenario_refresh_def scenario_tokens_def)
  have e: "js ''E'' = [69]" by (simp add: js_def)
  have c: "signature_corrupted A (butlast A @ js ''E'')"
    using corrupted_last [of "payload (JStr (js ''example.com'')) 1700000000000 1700086400000
        (JObj scenario_identity)" "js ''k1''"] a
    by (simp add: scenario_access_def scenario_generated e)
  have t: "1700000000001 \<le> scenario_now + LTT scenario_config * 86400000"
    by (simp add: scenario_now_def scenario_config_def)
  from f c t v show ?thesis
    by (simp add: a r)
qed

section \<open>A valid access token is enough\<close>

text \<open>
  The instance of C2 at the access token of the scenario, valid and not expired, with no
  refresh pair.
\<close>

theorem verify_accepts_successful_validation_witness:
  "validate 1700000000001 scenario_access (js ''k1'') = \<lparr>success = True, message = msg_valid\<rparr>
   \<and> verify 1700000000001 1700000000002 scenario_identity (js ''k1'') scenario_access None None"
proof -
  let ?P = "payload (JStr (js ''example.com'')) 1700000000000 1700086400000
              (JObj scenario_identity)"
  have a: "scenario_access = token_for ?P (js ''k1'')"
    by (simp add: scenario_access_def scenario_generated)
  have ok: "json_ok ?P"
    using payload_ok scenario_identity_ok by (simp add: js_def)
  have d: "decode scenario_access
      = Is \<lparr>header = token_header, body = ?P, sign = signature (js ''k1'') ?P\<rparr>"
    unfolding a by (rule decode_token_for [OF ok])
  have m: "data_matches
      (prop_value (body \<lparr>header = token_header, body = ?P, sign = signature (js ''k1'') ?P\<rparr>)
         (js ''data'')) scenario_identity"
    by (simp add: payload_props scenario_data_matches)
  have v: "validate 1700000000001 scenario_access (js ''k1'')
      = \<lparr>success = True, message = msg_valid\<rparr>"
    unfolding a by (simp add: validate_token_for [OF ok])
  then have s: "success (validate 1700000000001 scenario_access (js ''k1''))" by simp
  from verify_accepts_successful_validation [OF scenario_capability d m s] v
  show ?thesis by simp
qed
end
